theory Spec2Isabelle
  imports Complex_Main "HOL-Library.Multiset"
begin

section \<open>Regular expressions of the source\<close>

text \<open>
  The source matches strings with three JavaScript regular-expression literals, none of
  which carries a flag. Only the constructs that occur in them are modelled: literal text,
  sequencing, a greedy optional group, greedy repetition of a character class
  (\<open>+\<close>, \<open>*\<close>, \<open>{n}\<close>), capture groups and the anchors \<open>^\<close> and \<open>$\<close>.
  A string is a list of code units below 256, so the line terminators excluded by \<open>.\<close>
  are LF and CR.
\<close>

datatype cls = LowerAZ | AlphaNum | Digit | Space | Word | Dot

definition lower_chars :: string where
  "lower_chars = ''abcdefghijklmnopqrstuvwxyz''"

definition upper_chars :: string where
  "upper_chars = ''ABCDEFGHIJKLMNOPQRSTUVWXYZ''"

definition digit_chars :: string where
  "digit_chars = ''0123456789''"

fun in_cls :: "cls \<Rightarrow> char \<Rightarrow> bool" where
  "in_cls LowerAZ c = (c \<in> set lower_chars)"
| "in_cls AlphaNum c = (c \<in> set (lower_chars @ upper_chars @ digit_chars))"
| "in_cls Digit c = (c \<in> set digit_chars)"
| "in_cls Space c = (c \<in> set [CHR 0x09, CHR 0x0A, CHR 0x0B, CHR 0x0C, CHR 0x0D, CHR 0x20, CHR 0xA0])"
| "in_cls Word c = (c \<in> set (lower_chars @ upper_chars @ digit_chars @ ''_''))"
| "in_cls Dot c = (c \<noteq> CHR 0x0A \<and> c \<noteq> CHR 0x0D)"

datatype rx =
    Lit string
  | Seq rx rx
  | Opt rx
  | Plus cls
  | Star cls
  | Times nat cls
  | Group nat rx
  | Bol
  | Eol

text \<open>
  A matcher state is the number of code units before the current position, the rest of
  the input, and the captures made so far. \<open>run\<close> lists the states in which a
  sub-expression can finish, in the order in which a backtracking matcher tries them
  (greedy: the longest repetition first, the optional part taken before it is skipped).
\<close>

type_synonym captures = "nat \<Rightarrow> string option"
type_synonym mstate = "nat \<times> string \<times> captures"

fun run :: "rx \<Rightarrow> mstate \<Rightarrow> mstate list" where
  "run (Lit l) (p, s, c) =
     (if take (length l) s = l then [(p + length l, drop (length l) s, c)] else [])"
| "run (Seq a b) st = concat (map (run b) (run a st))"
| "run (Opt a) st = run a st @ [st]"
| "run (Plus k) (p, s, c) =
     map (\<lambda>n. (p + n, drop n s, c)) (rev [1 ..< Suc (length (takeWhile (in_cls k) s))])"
| "run (Star k) (p, s, c) =
     map (\<lambda>n. (p + n, drop n s, c)) (rev [0 ..< Suc (length (takeWhile (in_cls k) s))])"
| "run (Times n k) (p, s, c) =
     (if n \<le> length (takeWhile (in_cls k) s) then [(p + n, drop n s, c)] else [])"
| "run (Group i a) (p, s, c) =
     map (\<lambda>(p', s', c'). (p', s', c'(i \<mapsto> take (p' - p) s))) (run a (p, s, c))"
| "run Bol (p, s, c) = (if p = 0 then [(p, s, c)] else [])"
| "run Eol (p, s, c) = (if s = [] then [(p, s, c)] else [])"

text \<open>
  \<open>String.prototype.match\<close> with a regular expression that has no \<open>g\<close> flag returns
  the leftmost match: the start positions are tried from left to right, and at each one
  the first way to finish wins. The result is \<open>null\<close> (\<open>None\<close>) or the array of
  groups, index 0 being the whole match; a group that took no part reads \<open>undefined\<close>.
\<close>

definition attempt :: "rx \<Rightarrow> nat \<Rightarrow> string \<Rightarrow> captures option" where
  "attempt r p s =
     (case run r (p, s, Map.empty) of
        [] \<Rightarrow> None
      | (p', s', c') # _ \<Rightarrow> Some (c'(0 \<mapsto> take (p' - p) s)))"

fun exec_from :: "rx \<Rightarrow> nat \<Rightarrow> string \<Rightarrow> captures option" where
  "exec_from r p [] = attempt r p []"
| "exec_from r p (x # xs) =
     (case attempt r p (x # xs) of
        Some m \<Rightarrow> Some m
      | None \<Rightarrow> exec_from r (Suc p) xs)"

definition js_match :: "string \<Rightarrow> rx \<Rightarrow> captures option" where
  "js_match s r = exec_from r 0 s"

fun seqs :: "rx list \<Rightarrow> rx" where
  "seqs [] = Lit []"
| "seqs [r] = r"
| "seqs (r # rs) = Seq r (seqs rs)"

section \<open>Parsing a Spotify URL (clients/spotify/index.ts)\<close>

datatype SpotifyUrlType = playlist | track | album | artist | unknown

record SpotifyUrlInfo =
  info_type :: SpotifyUrlType
  info_id :: string
  originalUrl :: string

text \<open>
  \<^verbatim>\<open>/https?:\/\/(?:open\.)?spotify\.com\/(?:intl-[a-z]+\/)?([a-z]+)\/([a-zA-Z0-9]{22})(?:\?.*)?$/\<close>
\<close>

definition spotifyWebUrlRegex :: rx where
  "spotifyWebUrlRegex = seqs
     [Lit ''http'', Opt (Lit ''s''), Lit ''://'',
      Opt (Lit ''open.''), Lit ''spotify.com/'',
      Opt (seqs [Lit ''intl-'', Plus LowerAZ, Lit ''/'']),
      Group 1 (Plus LowerAZ), Lit ''/'',
      Group 2 (Times 22 AlphaNum),
      Opt (seqs [Lit ''?'', Star Dot]),
      Eol]"

text \<open>\<^verbatim>\<open>/^spotify:([a-z]+):([a-zA-Z0-9]{22})$/\<close>\<close>

definition spotifyUriRegex :: rx where
  "spotifyUriRegex = seqs
     [Bol, Lit ''spotify:'', Group 1 (Plus LowerAZ), Lit '':'',
      Group 2 (Times 22 AlphaNum), Eol]"

text \<open>
  The type names a URL may carry, as the strings the source compares with
  (\<open>validTypes\<close>), and the value of \<open>SpotifyUrlType\<close> each one stands for.
\<close>

definition validTypes :: "(string \<times> SpotifyUrlType) list" where
  "validTypes = [(''playlist'', playlist), (''track'', track), (''album'', album), (''artist'', artist)]"

text \<open>
  Reading \<open>match[i]\<close> is the one step of \<open>parseSpotifyUrl\<close> that can go wrong: on a
  \<open>null\<close> match it raises a \<open>TypeError\<close>, and a group that took no part in the match
  reads \<open>undefined\<close>, which is no value of the declared type \<open>string\<close> of
  \<open>SpotifyUrlInfo.id\<close>. Both are error values of the model.
\<close>

datatype parse_error = NullMatch | UndefinedGroup nat

definition group :: "captures option \<Rightarrow> nat \<Rightarrow> parse_error + string" where
  "group m i =
     (case m of
        None \<Rightarrow> Inl NullMatch
      | Some c \<Rightarrow> (case c i of None \<Rightarrow> Inl (UndefinedGroup i) | Some g \<Rightarrow> Inr g))"

definition parseSpotifyUrl :: "string \<Rightarrow> parse_error + SpotifyUrlInfo" where
  "parseSpotifyUrl url =
     (let m = js_match url spotifyWebUrlRegex;
          m = (if m = None then js_match url spotifyUriRegex else m)
      in if m = None
         then Inr \<lparr>info_type = unknown, info_id = '''', originalUrl = url\<rparr>
         else (case group m 1 of
                 Inl e \<Rightarrow> Inl e
               | Inr typeCandidate \<Rightarrow>
                   (case group m 2 of
                      Inl e \<Rightarrow> Inl e
                    | Inr ident \<Rightarrow>
                        Inr \<lparr>info_type = (case map_of validTypes typeCandidate of
                                             Some t \<Rightarrow> t
                                           | None \<Rightarrow> unknown),
                             info_id = ident,
                             originalUrl = url\<rparr>)))"

text \<open>
  The optional parts of a web URL, as the grammar reads them: a locale segment
  \<open>intl-\<close>, lower-case letters, \<open>/\<close>; and a query, \<open>?\<close> followed by anything but a
  line terminator.
\<close>

definition is_locale :: "string \<Rightarrow> bool" where
  "is_locale locale \<longleftrightarrow>
     locale = [] \<or> (\<exists>l. l \<noteq> [] \<and> list_all (in_cls LowerAZ) l \<and> locale = ''intl-'' @ l @ ''/'')"

definition is_query :: "string \<Rightarrow> bool" where
  "is_query query \<longleftrightarrow> query = [] \<or> (\<exists>q. list_all (in_cls Dot) q \<and> query = CHR ''?'' # q)"

section \<open>Catalogue pages (clients/spotify/playlist.ts, album.ts)\<close>

text \<open>
  JavaScript numbers that count things are integers here. A thrown value is a
  \<open>TypeError\<close>, an \<open>Error\<close> with its message and optional cause, or a plain string (the
  text a promise was rejected with).
\<close>

datatype thrown = TypeError | Error string "thrown option" | Text string

record Artist =
  artist_id :: string
  artist_name :: string
  artist_href :: string

record TrackInfo =
  track_id :: string
  track_name :: string
  track_href :: string
  track_type :: string
  artists :: "Artist list"

record PlaylistResult =
  total_p :: int
  length_p :: int
  offset :: int
  "next" :: "int option"
  tracks :: "TrackInfo list"

text \<open>
  What the catalogue answers to a page request, once parsed as JSON: an error object, or
  the fields the source reads. An item of a playlist page may hold \<open>null\<close> in place of
  its track.
\<close>

datatype page_reply =
    ErrorReply int string
  | PageReply int int "TrackInfo option list"

fun includes_s :: "string \<Rightarrow> string \<Rightarrow> bool" where
  "includes_s [] sub = (sub = [])"
| "includes_s (x # xs) sub = (take (length sub) (x # xs) = sub \<or> includes_s xs sub)"

text \<open>\<open>parseError\<close> always throws; the model returns what it throws.\<close>

definition parseError :: "int \<Rightarrow> string \<Rightarrow> thrown" where
  "parseError status message =
     (if status = 404 \<and> includes_s message ''Resource not found''
      then Error ''Resource not found'' None
      else if status = 400 \<and> includes_s message ''Invalid base62 id''
      then Error ''Invalid ID'' None
      else Error (''Error getting information, error: '' @ message) None)"

text \<open>
  \<open>parseTracks\<close> keeps the items whose \<open>type\<close> is \<open>track\<close>; reading \<open>type\<close> of a
  \<open>null\<close> item raises a \<open>TypeError\<close>.
\<close>

fun parseTracks :: "TrackInfo option list \<Rightarrow> thrown + TrackInfo list" where
  "parseTracks [] = Inr []"
| "parseTracks (None # ts) = Inl TypeError"
| "parseTracks (Some t # ts) =
     (case parseTracks ts of
        Inl e \<Rightarrow> Inl e
      | Inr r \<Rightarrow> Inr (if track_type t = ''track'' then t # r else r))"

text \<open>
  The body of the \<open>try\<close> block of \<open>tracks\<close>, the same in both classes: the request
  (which may fail), the error object, and the page built from the reply. The next offset
  is computed from the requested \<open>offset\<close>, with page size 10.
\<close>

definition tracks_body ::
  "(string \<Rightarrow> int \<Rightarrow> thrown + page_reply) \<Rightarrow> string \<Rightarrow> int \<Rightarrow> thrown + PlaylistResult" where
  "tracks_body rest ident off =
     (case rest ident off of
        Inl e \<Rightarrow> Inl e
      | Inr (ErrorReply status message) \<Rightarrow> Inl (parseError status message)
      | Inr (PageReply reply_total reply_offset items) \<Rightarrow>
          (case parseTracks items of
             Inl e \<Rightarrow> Inl e
           | Inr ts \<Rightarrow>
               Inr \<lparr>total_p = reply_total,
                    length_p = int (length items),
                    offset = reply_offset,
                    next = (if off + 10 > reply_total then None else Some (off + 10)),
                    tracks = ts\<rparr>))"

definition playlist_tracks ::
  "bool \<Rightarrow> (string \<Rightarrow> int \<Rightarrow> thrown + page_reply) \<Rightarrow> string \<Rightarrow> int \<Rightarrow> thrown + PlaylistResult" where
  "playlist_tracks started rest playlistId off =
     (if \<not> started then Inl (Error ''The Spotify client has not been started'' None)
      else (case tracks_body rest playlistId off of
              Inl e \<Rightarrow> Inl (Error ''Error getting playlist tracks'' (Some e))
            | Inr r \<Rightarrow> Inr r))"

definition album_tracks ::
  "bool \<Rightarrow> (string \<Rightarrow> int \<Rightarrow> thrown + page_reply) \<Rightarrow> string \<Rightarrow> int \<Rightarrow> thrown + PlaylistResult" where
  "album_tracks started rest albumId off =
     (if \<not> started then Inl (Error ''The Spotify client has not been started'' None)
      else (case tracks_body rest albumId off of
              Inl e \<Rightarrow> Inl (Error ''Error getting album'' (Some e))
            | Inr r \<Rightarrow> Inr r))"

section \<open>Ranking the search results (index.ts, sortVideos)\<close>

text \<open>
  A search result, with the fields the source reads. \<open>ago\<close> is \<open>None\<close> where the
  source finds \<open>undefined\<close>.
\<close>

record VideoSearchResult =
  url :: string
  title :: string
  views :: int
  seconds :: int
  ago :: "string option"

text \<open>
  Numbers are exact reals, not IEEE doubles. The one division of the comparator can
  divide by zero, so its result is a real, an infinity or \<open>NaN\<close>; a comparison with
  \<open>NaN\<close> is false.
\<close>

datatype jsnum = Num real | PosInf | NegInf | NaN

definition js_div :: "real \<Rightarrow> real \<Rightarrow> jsnum" where
  "js_div x y =
     (if y \<noteq> 0 then Num (x / y)
      else if x > 0 then PosInf
      else if x < 0 then NegInf
      else NaN)"

fun js_gt :: "jsnum \<Rightarrow> real \<Rightarrow> bool" where
  "js_gt (Num x) c = (x > c)"
| "js_gt PosInf c = True"
| "js_gt NegInf c = False"
| "js_gt NaN c = False"

fun js_lt :: "jsnum \<Rightarrow> real \<Rightarrow> bool" where
  "js_lt (Num x) c = (x < c)"
| "js_lt PosInf c = False"
| "js_lt NegInf c = True"
| "js_lt NaN c = False"

text \<open>\<^verbatim>\<open>/(\d+)\s+(\w+)\s+ago/\<close>\<close>

definition agoRegex :: rx where
  "agoRegex = seqs [Group 1 (Plus Digit), Plus Space, Group 2 (Plus Word), Plus Space, Lit ''ago'']"

text \<open>\<open>parseInt\<close> of a group of decimal digits.\<close>

definition digit_value :: "char \<Rightarrow> nat" where
  "digit_value c = (case map_of (zip digit_chars [0 ..< 10]) c of Some d \<Rightarrow> d | None \<Rightarrow> 0)"

definition parseInt :: "string \<Rightarrow> real" where
  "parseInt ds = real (foldl (\<lambda>n c. 10 * n + digit_value c) 0 ds)"

text \<open>\<open>toLowerCase\<close> of a group of word characters: only A to Z change.\<close>

definition toLowerCase :: "string \<Rightarrow> string" where
  "toLowerCase s =
     map (\<lambda>c. case map_of (zip upper_chars lower_chars) c of Some l \<Rightarrow> l | None \<Rightarrow> c) s"

text \<open>
  \<open>getTimeValue\<close> turns a text such as \<open>3 weeks ago\<close> into days, and anything the
  regular expression does not match into 0. Both groups take part in every match
  (\<open>agoRegex_groups\<close> below), so the last case of the model is never reached.
\<close>

definition getTimeValue :: "string \<Rightarrow> real" where
  "getTimeValue agoString =
     (case js_match agoString agoRegex of
        None \<Rightarrow> 0
      | Some m \<Rightarrow>
          (case (m 1, m 2) of
             (Some g1, Some g2) \<Rightarrow>
               (let v = parseInt g1; unit = toLowerCase g2
                in if unit = ''year'' \<or> unit = ''years'' then v * 365
                   else if unit = ''month'' \<or> unit = ''months'' then v * 30
                   else if unit = ''week'' \<or> unit = ''weeks'' then v * 7
                   else if unit = ''day'' \<or> unit = ''days'' then v
                   else if unit = ''hour'' \<or> unit = ''hours'' then v / 24
                   else if unit = ''minute'' \<or> unit = ''minutes'' then v / (24 * 60)
                   else v)
           | _ \<Rightarrow> 0))"

text \<open>
  The comparator passed to \<open>sort\<close>. Besides the number it returns, the model records
  which \<open>return\<close> statement produced it.
\<close>

datatype rule = MissingLast | ByViews | ByDuration | ByAge

definition compareVideos :: "VideoSearchResult \<Rightarrow> VideoSearchResult \<Rightarrow> rule \<times> real" where
  "compareVideos a b =
     (case (ago a, ago b) of
        (None, None) \<Rightarrow>
          (let viewsDiff = real_of_int (views b) - real_of_int (views a)
           in if \<bar>viewsDiff\<bar> < real_of_int (views b) * 0.2
              then (ByDuration, real_of_int (seconds a) - real_of_int (seconds b))
              else (ByViews, viewsDiff))
      | (None, Some bAgo) \<Rightarrow> (MissingLast, 1)
      | (Some aAgo, None) \<Rightarrow> (MissingLast, - 1)
      | (Some aAgo, Some bAgo) \<Rightarrow>
          (let viewsRatio = js_div (real_of_int (views b)) (real_of_int (views a));
               aDays = getTimeValue aAgo;
               bDays = getTimeValue bAgo
           in if js_gt viewsRatio 1.3 \<or> js_lt viewsRatio 0.7
              then (ByViews, real_of_int (views b) - real_of_int (views a))
              else if \<bar>aDays - bDays\<bar> < 30
              then (ByDuration, real_of_int (seconds a) - real_of_int (seconds b))
              else (ByAge, aDays - bDays)))"

text \<open>
  \<open>videos.sort(...)\<close> runs the sort of the JavaScript engine. The comparator above is
  not a consistent order (on some pairs it answers that each of the two comes first), and
  for such a comparator the language leaves the resulting order to the engine. So
  \<open>sortVideos\<close> takes the engine's sort as an argument, and \<open>engine_sort\<close> says what is
  assumed of it: the result is a rearrangement of the input, and no two neighbours in it
  stand against the comparator whichever way it is asked. For \<open>x\<close> standing right before
  \<open>y\<close>: the comparator, asked for \<open>x\<close> and \<open>y\<close>, did not answer that \<open>x\<close> comes
  after, or, asked for \<open>y\<close> and \<open>x\<close>, did not answer that \<open>y\<close> comes before. Sorting
  by insertion, by binary insertion and by merging runs all end with neighbours that were
  compared with each other and were placed as that comparison said.
\<close>

fun neighbours_agree :: "('a \<Rightarrow> 'a \<Rightarrow> real) \<Rightarrow> 'a list \<Rightarrow> bool" where
  "neighbours_agree cmp [] = True"
| "neighbours_agree cmp [x] = True"
| "neighbours_agree cmp (x # y # ys) =
     ((cmp x y \<le> 0 \<or> 0 \<le> cmp y x) \<and> neighbours_agree cmp (y # ys))"

definition engine_sort :: "(('a \<Rightarrow> 'a \<Rightarrow> real) \<Rightarrow> 'a list \<Rightarrow> 'a list) \<Rightarrow> bool" where
  "engine_sort srt \<longleftrightarrow>
     (\<forall>cmp xs. mset (srt cmp xs) = mset xs \<and> neighbours_agree cmp (srt cmp xs))"

definition sortVideos ::
  "((VideoSearchResult \<Rightarrow> VideoSearchResult \<Rightarrow> real) \<Rightarrow> VideoSearchResult list \<Rightarrow> VideoSearchResult list)
     \<Rightarrow> VideoSearchResult list \<Rightarrow> VideoSearchResult list" where
  "sortVideos srt videos = srt (\<lambda>a b. snd (compareVideos a b)) videos"

text \<open>
  Two sorts an engine may run, to evaluate the model with. The first is the straight
  insertion sort: each element in turn is put into the sorted part before it, after every
  element it is not smaller than.
\<close>

fun insert_sorted :: "('a \<Rightarrow> 'a \<Rightarrow> real) \<Rightarrow> 'a \<Rightarrow> 'a list \<Rightarrow> 'a list" where
  "insert_sorted cmp x [] = [x]"
| "insert_sorted cmp x (y # ys) =
     (if cmp x y < 0 then x # y # ys else y # insert_sorted cmp x ys)"

definition insertion_sort :: "('a \<Rightarrow> 'a \<Rightarrow> real) \<Rightarrow> 'a list \<Rightarrow> 'a list" where
  "insertion_sort cmp xs = foldl (\<lambda>sorted x. insert_sorted cmp x sorted) [] xs"

text \<open>
  The second takes the run the input starts with, ascending or strictly descending (a
  descending run is reversed), and puts every further element into the sorted part by
  binary search, comparing the new element with the one in the middle. This is how the
  V8 engine of Node sorts an array of fewer than 64 elements; longer arrays it cuts into
  such runs and merges them.
\<close>

fun run_more :: "('a \<Rightarrow> 'a \<Rightarrow> real) \<Rightarrow> bool \<Rightarrow> 'a \<Rightarrow> 'a list \<Rightarrow> nat" where
  "run_more cmp descending previous [] = 0"
| "run_more cmp descending previous (x # xs) =
     (if (cmp x previous < 0) = descending then Suc (run_more cmp descending x xs) else 0)"

fun first_run :: "('a \<Rightarrow> 'a \<Rightarrow> real) \<Rightarrow> 'a list \<Rightarrow> 'a list \<times> 'a list" where
  "first_run cmp [] = ([], [])"
| "first_run cmp [x] = ([x], [])"
| "first_run cmp (x # y # ys) =
     (let descending = (cmp y x < 0);
          n = run_more cmp descending y ys;
          r = x # y # take n ys
      in (if descending then rev r else r, drop n ys))"

function bsearch :: "('a \<Rightarrow> 'a \<Rightarrow> real) \<Rightarrow> 'a \<Rightarrow> 'a list \<Rightarrow> nat \<Rightarrow> nat \<Rightarrow> nat" where
  "bsearch cmp pivot a left right =
     (if left < right
      then (let mid = left + (right - left) div 2
            in if cmp pivot (a ! mid) < 0
               then bsearch cmp pivot a left mid
               else bsearch cmp pivot a (Suc mid) right)
      else left)"
  by pat_completeness auto
termination
  by (relation "measure (\<lambda>(cmp, pivot, a, left, right). right - left)") auto

declare bsearch.simps [simp del]

definition binary_insert :: "('a \<Rightarrow> 'a \<Rightarrow> real) \<Rightarrow> 'a list \<Rightarrow> 'a \<Rightarrow> 'a list" where
  "binary_insert cmp a pivot =
     (let p = bsearch cmp pivot a 0 (length a) in take p a @ pivot # drop p a)"

definition run_binary_sort :: "('a \<Rightarrow> 'a \<Rightarrow> real) \<Rightarrow> 'a list \<Rightarrow> 'a list" where
  "run_binary_sort cmp xs =
     (case first_run cmp xs of (r, rest) \<Rightarrow> foldl (binary_insert cmp) r rest)"

text \<open>
  The step by which an engine joins two runs into one: the head of the right run goes
  first only when the comparator puts it before the head of the left run.
\<close>

fun merge_runs :: "('a \<Rightarrow> 'a \<Rightarrow> real) \<Rightarrow> 'a list \<Rightarrow> 'a list \<Rightarrow> 'a list" where
  "merge_runs cmp [] ys = ys"
| "merge_runs cmp xs [] = xs"
| "merge_runs cmp (x # xs) (y # ys) =
     (if cmp y x < 0 then y # merge_runs cmp (x # xs) ys else x # merge_runs cmp xs (y # ys))"

section \<open>Fetching the audio (clients/youtube)\<close>

text \<open>
  \<open>downloadMp3\<close> spawns \<open>yt-dlp\<close> and returns a promise. What the subprocess does is a
  list of events in the order the listeners see them: a chunk on standard output (nobody
  listens), a chunk on standard error, or \<open>close\<close> with the exit code (\<open>None\<close> for
  \<open>null\<close>, when a signal ended the process). A promise that has settled ignores every
  later call of \<open>resolve\<close> or \<open>reject\<close>. The runs of the model are those of a
  subprocess that was started: \<open>downloadMp3\<close> has no listener for the \<open>error\<close> event
  of one that could not be.
\<close>

datatype proc_event = StdoutData string | StderrData string | Close "int option"

datatype 'a promise = Pending | Fulfilled 'a | Rejected thrown

fun on_event :: "bool promise \<Rightarrow> proc_event \<Rightarrow> bool promise" where
  "on_event Pending (Close code) = (if code = Some 0 then Fulfilled True else Pending)"
| "on_event Pending (StderrData d) = Rejected (Text d)"
| "on_event Pending (StdoutData d) = Pending"
| "on_event (Fulfilled v) e = Fulfilled v"
| "on_event (Rejected r) e = Rejected r"

definition ytdlp_args :: "string \<Rightarrow> string \<Rightarrow> string list" where
  "ytdlp_args video_url path =
     [''--extract-audio'', ''--audio-format'', ''mp3'', ''--audio-quality'', ''0'',
      ''--embed-thumbnail'', ''--add-metadata'', ''-P '' @ path, video_url]"

definition downloadMp3 ::
  "(string \<Rightarrow> string list \<Rightarrow> proc_event list) \<Rightarrow> string \<Rightarrow> string \<Rightarrow> bool promise" where
  "downloadMp3 spawn video_url path =
     foldl on_event Pending (spawn ''yt-dlp'' (ytdlp_args video_url path))"

text \<open>
  Node emits \<open>close\<close> once, after the streams of the subprocess have ended: a finished
  run is a list of chunks followed by one \<open>close\<close>.
\<close>

fun finished_run :: "proc_event list \<Rightarrow> bool" where
  "finished_run [] = False"
| "finished_run [e] = (case e of Close code \<Rightarrow> True | _ \<Rightarrow> False)"
| "finished_run (e # es) = ((case e of Close code \<Rightarrow> False | _ \<Rightarrow> True) \<and> finished_run es)"

fun stderr_chunks :: "proc_event list \<Rightarrow> string list" where
  "stderr_chunks [] = []"
| "stderr_chunks (StderrData d # es) = d # stderr_chunks es"
| "stderr_chunks (e # es) = stderr_chunks es"

section \<open>One track, and a whole collection (index.ts)\<close>

text \<open>
  The world outside the program: whether the catalogue client was started, what the
  catalogue answers to a page request of an album or a playlist, what the video search
  returns (\<open>result.videos\<close>, or the value it rejects with), and what a run of
  \<open>yt-dlp\<close> does.
\<close>

record world =
  started :: bool
  albums_rest :: "string \<Rightarrow> int \<Rightarrow> thrown + page_reply"
  playlists_rest :: "string \<Rightarrow> int \<Rightarrow> thrown + page_reply"
  yt_search :: "string \<Rightarrow> thrown + VideoSearchResult list"
  yt_dlp :: "string \<Rightarrow> string list \<Rightarrow> proc_event list"

text \<open>
  How an asynchronous operation ends: it returns, it throws (its promise rejects), or its
  promise never settles. Its trace lists the queries it searched for, the calls of
  \<open>downloadMp3\<close> it made, and what it wrote to the console.
\<close>

datatype completion = Returned | Threw thrown | NeverSettles

datatype log_entry =
    LogValue thrown
  | NoSongFound string string
  | SongDownloaded string string
  | ErrorDownloading string string

record track_run =
  completion :: completion
  searches :: "string list"
  fetches :: "(string \<times> string) list"
  console :: "log_entry list"

text \<open>
  \<open>searchInYoutubeAndDownload\<close>. Reading \<open>track.artists[0].name\<close> of a track without
  artists raises a \<open>TypeError\<close>: in the \<open>try\<close> block it is caught, but the message of
  the \<open>catch\<close> block reads it again, and that one escapes.
\<close>

definition searchInYoutubeAndDownload :: "world \<Rightarrow> TrackInfo \<Rightarrow> string \<Rightarrow> track_run" where
  "searchInYoutubeAndDownload w trk dir =
     (case artists trk of
        [] \<Rightarrow>
          \<lparr>completion = Threw TypeError, searches = [], fetches = [],
           console = [LogValue TypeError]\<rparr>
      | a # _ \<Rightarrow>
          (let query = track_name trk @ '' - '' @ artist_name a @ '' lyric''
           in case yt_search w query of
                Inl e \<Rightarrow>
                  \<lparr>completion = Returned, searches = [query], fetches = [],
                   console = [LogValue e, ErrorDownloading (track_name trk) (artist_name a)]\<rparr>
              | Inr [] \<Rightarrow>
                  \<lparr>completion = Returned, searches = [query], fetches = [],
                   console = [NoSongFound (track_name trk) (artist_name a)]\<rparr>
              | Inr (video # _) \<Rightarrow>
                  (case downloadMp3 (yt_dlp w) (url video) dir of
                     Fulfilled _ \<Rightarrow>
                       \<lparr>completion = Returned, searches = [query],
                        fetches = [(url video, dir)],
                        console = [SongDownloaded (track_name trk) (artist_name a)]\<rparr>
                   | Rejected e \<Rightarrow>
                       \<lparr>completion = Returned, searches = [query],
                        fetches = [(url video, dir)],
                        console = [LogValue e, ErrorDownloading (track_name trk) (artist_name a)]\<rparr>
                   | Pending \<Rightarrow>
                       \<lparr>completion = NeverSettles, searches = [query],
                        fetches = [(url video, dir)], console = []\<rparr>)))"


datatype coll = Album | Playlist







section \<open>A small world to run the model in\<close>

text \<open>
  An album of three tracks on two pages. The search for the second track fails, and
  \<open>yt-dlp\<close> fails on the third; every search that succeeds returns two videos, the
  second with far more views than the first.
\<close>

definition ex_artist :: Artist where
  "ex_artist = \<lparr>artist_id = ''a1'', artist_name = ''Ann'', artist_href = ''ha''\<rparr>"

definition ex_track :: "string \<Rightarrow> TrackInfo" where
  "ex_track n = \<lparr>track_id = n, track_name = n, track_href = ''h'', track_type = ''track'',
                 artists = [ex_artist]\<rparr>"

definition ex_video :: "string \<Rightarrow> int \<Rightarrow> VideoSearchResult" where
  "ex_video u v = \<lparr>url = u, title = u, views = v, seconds = 200, ago = Some ''1 year ago''\<rparr>"

definition ex_world :: world where
  "ex_world =
     \<lparr>started = True,
      albums_rest = (\<lambda>i off. Inr (PageReply 12 off (if off = 10 then [Some (ex_track ''Three'')] else []))),
      playlists_rest = (\<lambda>i off. Inl (Text ''offline'')),
      yt_search = (\<lambda>q. if q = ''Two - Ann lyric'' then Inl (Error ''search failed'' None)
                        else Inr [ex_video (''https://youtu.be/'' @ q) 10,
                                  ex_video ''https://youtu.be/other'' 1000]),
      yt_dlp = (\<lambda>cmd args. if last args = ''https://youtu.be/Three - Ann lyric''
                             then [StderrData ''ERROR'', Close (Some 1)]
                             else [StdoutData ''ok'', Close (Some 0)])\<rparr>"




text \<open>
  Four search results: one without \<open>ago\<close>, and three on which the comparator answers
  against itself.
\<close>

definition ex_ranked :: "VideoSearchResult list" where
  "ex_ranked =
     [\<lparr>url = ''v0'', title = ''V0'', views = 65, seconds = 200, ago = Some ''1 year ago''\<rparr>,
      \<lparr>url = ''u'', title = ''U'', views = 900, seconds = 100, ago = None\<rparr>,
      \<lparr>url = ''v1'', title = ''V1'', views = 80, seconds = 200, ago = Some ''1 year ago''\<rparr>,
      \<lparr>url = ''v2'', title = ''V2'', views = 100, seconds = 259, ago = Some ''1 year ago''\<rparr>]"

section \<open>Notions used in the proofs\<close>

text \<open>
  The groups that every match of an expression defines: those outside any optional part.
\<close>

fun sure :: "rx \<Rightarrow> nat set" where
  "sure (Seq a b) = sure a \<union> sure b"
| "sure (Group i a) = insert i (sure a)"
| "sure _ = {}"

text \<open>
  \<open>first r st x\<close>: the matcher, started in state \<open>st\<close>, finishes \<open>r\<close> first in state
  \<open>x\<close>.
\<close>

definition first :: "rx \<Rightarrow> mstate \<Rightarrow> mstate \<Rightarrow> bool" where
  "first r st x \<longleftrightarrow> (\<exists>xs. run r st = x # xs)"

text \<open>The tails of the two grammars, named so that they can be treated one at a time.\<close>

definition id_rx :: rx where
  "id_rx = seqs [Group 2 (Times 22 AlphaNum), Opt (seqs [Lit ''?'', Star Dot]), Eol]"

definition kind_rx :: rx where
  "kind_rx = seqs [Group 1 (Plus LowerAZ), Lit ''/'', id_rx]"

definition locale_rx :: rx where
  "locale_rx = seqs [Opt (seqs [Lit ''intl-'', Plus LowerAZ, Lit ''/'']), kind_rx]"

definition host_rx :: rx where
  "host_rx = seqs [Opt (Lit ''open.''), Lit ''spotify.com/'', locale_rx]"

definition uri_id_rx :: rx where
  "uri_id_rx = seqs [Group 2 (Times 22 AlphaNum), Eol]"

text \<open>A state whose second group holds 22 characters.\<close>

definition id22 :: "mstate \<Rightarrow> bool" where
  "id22 x \<longleftrightarrow> (\<exists>g. snd (snd x) 2 = Some g \<and> length g = 22)"

text \<open>
  A list of results in which no result without \<open>ago\<close> stands before one that has it.
\<close>

fun known_first :: "VideoSearchResult list \<Rightarrow> bool" where
  "known_first [] = True"
| "known_first (v # vs) = ((ago v \<noteq> None \<or> list_all (\<lambda>w. ago w = None) vs) \<and> known_first vs)"

section \<open>Properties of the URL parser\<close>

subsection \<open>Groups that every match defines\<close>

lemma run_dom:
  "(p', s', c') \<in> set (run r (p, s, c)) \<Longrightarrow> dom c \<union> sure r \<subseteq> dom c'"
proof (induction r arbitrary: p s c p' s' c')
  case (Seq a b)
  from Seq.prems obtain p1 s1 c1 where
    1: "(p1, s1, c1) \<in> set (run a (p, s, c))" and 2: "(p', s', c') \<in> set (run b (p1, s1, c1))"
    by auto
  from Seq.IH(1) [OF 1] Seq.IH(2) [OF 2] show ?case by (simp only: sure.simps) blast
next
  case (Group i a)
  from Group.prems obtain c1 where
    1: "(p', s', c1) \<in> set (run a (p, s, c))" and 2: "c' = c1(i \<mapsto> take (p' - p) s)"
    by auto
  from Group.IH [OF 1] 2 show ?case by auto
next
  case (Opt a)
  from Opt.prems have "(p', s', c') \<in> set (run a (p, s, c)) \<or> c' = c" by auto
  then show ?case using Opt.IH [of p' s' c' p s c] by auto
qed (auto split: if_splits)

lemma attempt_dom: "attempt r p s = Some m \<Longrightarrow> sure r \<subseteq> dom m"
proof -
  assume a: "attempt r p s = Some m"
  then obtain p' s' c' sts where r: "run r (p, s, Map.empty) = (p', s', c') # sts"
    and m: "m = c'(0 \<mapsto> take (p' - p) s)"
    by (auto simp: attempt_def split: list.splits)
  from r have "(p', s', c') \<in> set (run r (p, s, Map.empty))" by simp
  from run_dom [OF this] m show ?thesis by auto
qed

lemma exec_from_dom: "exec_from r p s = Some m \<Longrightarrow> sure r \<subseteq> dom m"
  by (induction s arbitrary: p) (auto dest: attempt_dom split: option.splits)

lemma sure_web: "sure spotifyWebUrlRegex = {1, 2}"
  by (auto simp: spotifyWebUrlRegex_def)

lemma sure_uri: "sure spotifyUriRegex = {1, 2}"
  by (auto simp: spotifyUriRegex_def)

lemma match_groups:
  assumes "js_match inp spotifyWebUrlRegex = Some m \<or> js_match inp spotifyUriRegex = Some m"
  shows "\<exists>a b. m 1 = Some a \<and> m 2 = Some b"
proof -
  have "{1, 2} \<subseteq> dom m"
    using assms exec_from_dom [of spotifyWebUrlRegex 0 inp m]
      exec_from_dom [of spotifyUriRegex 0 inp m]
    by (auto simp: js_match_def sure_web sure_uri)
  then show ?thesis by auto
qed

subsection \<open>The first way to finish\<close>

lemma first_Lit: "first b (p + length l, s, c) x \<Longrightarrow> first (Seq (Lit l) b) (p, l @ s, c) x"
  by (auto simp: first_def)

lemma first_Bol: "first b (0, s, c) x \<Longrightarrow> first (Seq Bol b) (0, s, c) x"
  by (auto simp: first_def)

lemma first_Eol: "first Eol (p, [], c) (p, [], c)"
  by (simp add: first_def)

lemma first_Opt_take: "first (Seq a b) st x \<Longrightarrow> first (Seq (Opt a) b) st x"
  by (auto simp: first_def)

lemma first_Opt_skip:
  assumes "run (Seq a b) st = []" "first b st x"
  shows "first (Seq (Opt a) b) st x"
proof -
  have "run (Seq (Opt a) b) st = run (Seq a b) st @ run b st" by simp
  with assms show ?thesis by (simp add: first_def del: run.simps)
qed

lemma run_Seq_assoc: "run (Seq (Seq a b) c) st = run (Seq a (Seq b c)) st"
proof -
  have "concat (map f (concat (map g xs))) = concat (map (\<lambda>y. concat (map f (g y))) xs)"
    for f :: "mstate \<Rightarrow> mstate list" and g :: "mstate \<Rightarrow> mstate list" and xs
    by (induction xs) auto
  from this [of "run c" "run b" "run a st"] show ?thesis
    by (simp add: comp_def cong: map_cong)
qed

lemma first_assoc: "first (Seq a (Seq b c)) st x \<Longrightarrow> first (Seq (Seq a b) c) st x"
  by (simp add: first_def run_Seq_assoc del: run.simps)

lemma takeWhile_word:
  "list_all P w \<Longrightarrow> \<not> P d \<Longrightarrow> takeWhile P (w @ d # s) = w"
  by (induction w) auto

lemma first_Plus:
  assumes "list_all (in_cls k) w" "w \<noteq> []" "\<not> in_cls k d"
    and "first b (p + length w, d # s, c) x"
  shows "first (Seq (Plus k) b) (p, w @ d # s, c) x"
proof -
  obtain n where n: "length w = Suc n" using assms(2) by (cases w) auto
  have "rev [1 ..< Suc (length w)] = length w # rev [1 ..< length w]"
    using n by simp
  then show ?thesis
    using assms(4) by (auto simp: first_def takeWhile_word [OF assms(1,3)])
qed

lemma first_Group_Plus:
  assumes "list_all (in_cls k) w" "w \<noteq> []" "\<not> in_cls k d"
    and "first b (p + length w, d # s, c(i \<mapsto> w)) x"
  shows "first (Seq (Group i (Plus k)) b) (p, w @ d # s, c) x"
proof -
  obtain n where n: "length w = Suc n" using assms(2) by (cases w) auto
  have "rev [1 ..< Suc (length w)] = length w # rev [1 ..< length w]"
    using n by simp
  then show ?thesis
    using assms(4) by (auto simp: first_def takeWhile_word [OF assms(1,3)])
qed

lemma length_takeWhile_app: "list_all P w \<Longrightarrow> length w \<le> length (takeWhile P (w @ s))"
  by (induction w) auto

lemma first_Group_Times:
  assumes "length w = n" "list_all (in_cls k) w"
    and "first b (p + n, s, c(i \<mapsto> w)) x"
  shows "first (Seq (Group i (Times n k)) b) (p, w @ s, c) x"
  using assms length_takeWhile_app [OF assms(2), of s] by (auto simp: first_def)

lemma takeWhile_all: "list_all P q \<Longrightarrow> takeWhile P q = q"
  by (induction q) auto

lemma first_Star_Eol:
  assumes "list_all (in_cls k) q"
  shows "first (Seq (Star k) Eol) (p, q, c) (p + length q, [], c)"
proof -
  have "rev [0 ..< Suc (length q)] = length q # rev [0 ..< length q]" by simp
  then show ?thesis
    by (simp add: first_def takeWhile_all [OF assms])
qed

lemma first_attempt:
  "first r (p, s, Map.empty) (p', s', c') \<Longrightarrow> attempt r p s = Some (c'(0 \<mapsto> take (p' - p) s))"
  by (auto simp: first_def attempt_def)

lemma exec_from_hit: "attempt r p s = Some m \<Longrightarrow> exec_from r p s = Some m"
  by (cases s) auto

lemma first_match:
  "first r (0, s, Map.empty) (p', s', c') \<Longrightarrow> \<exists>g. js_match s r = Some (c'(0 \<mapsto> g))"
  unfolding js_match_def by (blast dest: first_attempt exec_from_hit)

lemma first_Lit1: "first b (Suc p, s, c) x \<Longrightarrow> first (Seq (Lit [d]) b) (p, d # s, c) x"
  by (auto simp: first_def)

lemma first_Opt_Lit_skip:
  "take (length l) s \<noteq> l \<Longrightarrow> first b (p, s, c) x \<Longrightarrow> first (Seq (Opt (Lit l)) b) (p, s, c) x"
  by (rule first_Opt_skip) simp_all

lemma first_Opt_Lit_take:
  "first b (p + length l, s, c) x \<Longrightarrow> first (Seq (Opt (Lit l)) b) (p, l @ s, c) x"
  by (rule first_Opt_take, rule first_Lit)

lemma web_rx: "spotifyWebUrlRegex = seqs [Lit ''http'', Opt (Lit ''s''), Lit ''://'', host_rx]"
  by (simp add: spotifyWebUrlRegex_def host_rx_def locale_rx_def kind_rx_def id_rx_def)

lemma first_id_rx:
  assumes "length ident = 22" "list_all (in_cls AlphaNum) ident" "is_query query"
  shows "\<exists>p'. first id_rx (p, ident @ query, c) (p', [], c(2 \<mapsto> ident))"
proof (cases "query = []")
  case True
  have "first id_rx (p, ident @ [], c) (p + 22, [], c(2 \<mapsto> ident))"
    unfolding id_rx_def seqs.simps
    by (rule first_Group_Times [OF assms(1,2)], rule first_Opt_skip, simp, rule first_Eol)
  with True show ?thesis by auto
next
  case False
  then obtain q where q: "list_all (in_cls Dot) q" "query = CHR ''?'' # q"
    using assms(3) by (auto simp: is_query_def)
  have "first id_rx (p, ident @ ''?'' @ q, c) (p + 22 + length ''?'' + length q, [], c(2 \<mapsto> ident))"
    unfolding id_rx_def seqs.simps
    by (rule first_Group_Times [OF assms(1,2)], rule first_Opt_take, rule first_assoc,
        rule first_Lit, rule first_Star_Eol [OF q(1)])
  with q show ?thesis by auto
qed

lemma first_kind_rx:
  assumes "length ident = 22" "list_all (in_cls AlphaNum) ident" "is_query query"
    and "kind \<noteq> []" "list_all (in_cls LowerAZ) kind"
  shows "\<exists>p'. first kind_rx (p, kind @ CHR ''/'' # ident @ query, c) (p', [], c(1 \<mapsto> kind, 2 \<mapsto> ident))"
proof -
  from first_id_rx [OF assms(1-3)] obtain p' where
    "first id_rx (Suc (p + length kind), ident @ query, c(1 \<mapsto> kind)) (p', [], c(1 \<mapsto> kind, 2 \<mapsto> ident))"
    by blast
  then have "first kind_rx (p, kind @ CHR ''/'' # ident @ query, c) (p', [], c(1 \<mapsto> kind, 2 \<mapsto> ident))"
    unfolding kind_rx_def seqs.simps
    by - (rule first_Group_Plus [OF assms(5,4)], simp add: lower_chars_def, rule first_Lit1)
  then show ?thesis ..
qed

lemma run_Lit_fail:
  "take (length l) s \<noteq> l \<Longrightarrow> run (Seq (Seq (Lit l) a) b) (p, s, c) = []"
  by simp

lemma valid_kind:
  assumes "map_of validTypes kind = Some t"
  shows "kind \<noteq> []" "list_all (in_cls LowerAZ) kind" "take (length ''intl-'') (kind @ CHR ''/'' # s) \<noteq> ''intl-''"
  using assms by (auto simp: validTypes_def lower_chars_def split: if_splits)

lemma first_locale_rx:
  assumes "length ident = 22" "list_all (in_cls AlphaNum) ident" "is_query query"
    and "map_of validTypes kind = Some t" and "is_locale locale"
  shows "\<exists>p'. first locale_rx (p, locale @ kind @ CHR ''/'' # ident @ query, c)
           (p', [], c(1 \<mapsto> kind, 2 \<mapsto> ident))"
proof (cases "locale = []")
  case True
  from first_kind_rx [OF assms(1-3) valid_kind(1,2) [OF assms(4)]] obtain p' where
    "first kind_rx (p, kind @ CHR ''/'' # ident @ query, c) (p', [], c(1 \<mapsto> kind, 2 \<mapsto> ident))"
    by blast
  then have "first locale_rx (p, kind @ CHR ''/'' # ident @ query, c) (p', [], c(1 \<mapsto> kind, 2 \<mapsto> ident))"
    unfolding locale_rx_def seqs.simps
    by - (rule first_Opt_skip, rule run_Lit_fail,
          rule valid_kind(3) [OF assms(4)])
  with True show ?thesis by auto
next
  case False
  then obtain l where l: "l \<noteq> []" "list_all (in_cls LowerAZ) l" "locale = ''intl-'' @ l @ ''/''"
    using assms(5) by (auto simp: is_locale_def)
  let ?rest = "kind @ CHR ''/'' # ident @ query"
  from first_kind_rx [OF assms(1-3) valid_kind(1,2) [OF assms(4)]] obtain p' where
    "first kind_rx (Suc (p + length ''intl-'' + length l), ?rest, c) (p', [], c(1 \<mapsto> kind, 2 \<mapsto> ident))"
    by blast
  then have "first locale_rx (p, ''intl-'' @ (l @ CHR ''/'' # ?rest), c) (p', [], c(1 \<mapsto> kind, 2 \<mapsto> ident))"
    unfolding locale_rx_def seqs.simps
    by - (rule first_Opt_take, rule first_assoc, rule first_Lit, rule first_assoc,
          rule first_Plus [OF l(2,1)], simp add: lower_chars_def, rule first_Lit1)
  with l show ?thesis by auto
qed

lemma first_web:
  assumes "length ident = 22" "list_all (in_cls AlphaNum) ident" "is_query query"
    and "map_of validTypes kind = Some t" and "is_locale locale"
    and "scheme = ''http'' \<or> scheme = ''https''"
    and "host = ''spotify.com'' \<or> host = ''open.spotify.com''"
  shows "\<exists>p'. first spotifyWebUrlRegex
           (0, scheme @ ''://'' @ host @ ''/'' @ locale @ kind @ ''/'' @ ident @ query, Map.empty)
           (p', [], [1 \<mapsto> kind, 2 \<mapsto> ident])"
proof -
  let ?rest = "locale @ kind @ CHR ''/'' # ident @ query"
  have loc: "\<exists>p'. first locale_rx (p, ?rest, Map.empty) (p', [], [1 \<mapsto> kind, 2 \<mapsto> ident])" for p
    using first_locale_rx [OF assms(1-5)] by blast
  have host: "\<exists>p'. first host_rx (p, host @ ''/'' @ ?rest, Map.empty) (p', [], [1 \<mapsto> kind, 2 \<mapsto> ident])" for p
  proof -
    from assms(7) show ?thesis
    proof
      assume h: "host = ''spotify.com''"
      from loc obtain p' where
        "first locale_rx (p + length ''spotify.com/'', ?rest, Map.empty) (p', [], [1 \<mapsto> kind, 2 \<mapsto> ident])"
        by blast
      then have "first host_rx (p, ''spotify.com/'' @ ?rest, Map.empty) (p', [], [1 \<mapsto> kind, 2 \<mapsto> ident])"
        unfolding host_rx_def seqs.simps
        by - (rule first_Opt_Lit_skip, simp, rule first_Lit)
      with h show ?thesis by auto
    next
      assume h: "host = ''open.spotify.com''"
      from loc obtain p' where
        "first locale_rx (p + length ''open.'' + length ''spotify.com/'', ?rest, Map.empty)
           (p', [], [1 \<mapsto> kind, 2 \<mapsto> ident])"
        by blast
      then have "first host_rx (p, ''open.'' @ ''spotify.com/'' @ ?rest, Map.empty) (p', [], [1 \<mapsto> kind, 2 \<mapsto> ident])"
        unfolding host_rx_def seqs.simps
        by - (rule first_Opt_Lit_take, rule first_Lit)
      with h show ?thesis by auto
    qed
  qed
  let ?tail = "host @ ''/'' @ ?rest"
  from assms(6) show ?thesis
  proof
    assume sc: "scheme = ''http''"
    from host obtain p' where
      "first host_rx (0 + length ''http'' + length ''://'', ?tail, Map.empty) (p', [], [1 \<mapsto> kind, 2 \<mapsto> ident])"
      by blast
    then have "first spotifyWebUrlRegex (0, ''http'' @ ''://'' @ ?tail, Map.empty) (p', [], [1 \<mapsto> kind, 2 \<mapsto> ident])"
      unfolding web_rx seqs.simps
      by - (rule first_Lit, rule first_Opt_Lit_skip, simp, rule first_Lit)
    with sc show ?thesis by auto
  next
    assume sc: "scheme = ''https''"
    from host obtain p' where
      "first host_rx (0 + length ''http'' + length ''s'' + length ''://'', ?tail, Map.empty) (p', [], [1 \<mapsto> kind, 2 \<mapsto> ident])"
      by blast
    then have "first spotifyWebUrlRegex (0, ''http'' @ ''s'' @ ''://'' @ ?tail, Map.empty) (p', [], [1 \<mapsto> kind, 2 \<mapsto> ident])"
      unfolding web_rx seqs.simps
      by - (rule first_Lit, rule first_Opt_Lit_take, rule first_Lit)
    with sc show ?thesis by auto
  qed
qed

lemma first_uri:
  assumes "length ident = 22" "list_all (in_cls AlphaNum) ident"
    and "map_of validTypes kind = Some t"
  shows "\<exists>p'. first spotifyUriRegex (0, ''spotify:'' @ kind @ '':'' @ ident, Map.empty)
           (p', [], [1 \<mapsto> kind, 2 \<mapsto> ident])"
proof -
  have "first spotifyUriRegex (0, ''spotify:'' @ kind @ CHR '':'' # ident @ [], Map.empty)
          (Suc (0 + length ''spotify:'' + length kind) + 22, [], [1 \<mapsto> kind, 2 \<mapsto> ident])"
    unfolding spotifyUriRegex_def seqs.simps
    by (rule first_Bol, rule first_Lit,
        rule first_Group_Plus [OF valid_kind(2,1) [OF assms(3)]], simp add: lower_chars_def,
        rule first_Lit1, rule first_Group_Times [OF assms(1,2)], rule first_Eol)
  then show ?thesis by auto
qed

subsection \<open>The web grammar needs a slash\<close>

lemma run_Seq_Lit_nonempty:
  "run (Seq (Lit l) b) (p, s, c) \<noteq> [] \<Longrightarrow>
     take (length l) s = l \<and> run b (p + length l, drop (length l) s, c) \<noteq> []"
  by (auto split: if_splits)

lemma run_Seq_Opt_nonempty:
  "run (Seq (Opt a) b) st \<noteq> [] \<Longrightarrow> run (Seq a b) st \<noteq> [] \<or> run b st \<noteq> []"
  by auto

lemma take_drop_subset: "take n (drop k s) = l \<Longrightarrow> set l \<subseteq> set s"
  by (auto dest: in_set_takeD in_set_dropD)

lemma web_needs_slash:
  assumes "run spotifyWebUrlRegex (p, s, c) \<noteq> []"
  shows "CHR ''/'' \<in> set s"
proof -
  let ?b = "Seq (Lit ''://'') host_rx"
  let ?s = "drop (length ''http'') s"
  from assms have "run (Seq (Opt (Lit ''s'')) ?b) (p + length ''http'', ?s, c) \<noteq> []"
    unfolding web_rx seqs.simps by (rule run_Seq_Lit_nonempty [THEN conjunct2])
  then have "run (Seq (Lit ''s'') ?b) (p + length ''http'', ?s, c) \<noteq> [] \<or>
             run ?b (p + length ''http'', ?s, c) \<noteq> []"
    by (rule run_Seq_Opt_nonempty)
  then have "\<exists>n k. take n (drop k s) = ''://''"
  proof
    assume "run (Seq (Lit ''s'') ?b) (p + length ''http'', ?s, c) \<noteq> []"
    then have "run ?b (p + length ''http'' + length ''s'', drop (length ''s'') ?s, c) \<noteq> []"
      by (rule run_Seq_Lit_nonempty [THEN conjunct2])
    then have "take (length ''://'') (drop (length ''s'') ?s) = ''://''"
      by (rule run_Seq_Lit_nonempty [THEN conjunct1])
    then have "take (length ''://'') (drop (length ''s'' + length ''http'') s) = ''://''"
      by (simp only: drop_drop)
    then show ?thesis by blast
  next
    assume "run ?b (p + length ''http'', ?s, c) \<noteq> []"
    then have "take (length ''://'') ?s = ''://''"
      by (rule run_Seq_Lit_nonempty [THEN conjunct1])
    then show ?thesis by blast
  qed
  then obtain n k where "take n (drop k s) = ''://''" by blast
  from take_drop_subset [OF this] show ?thesis by simp
qed

lemma web_no_slash: "CHR ''/'' \<notin> set s \<Longrightarrow> exec_from spotifyWebUrlRegex p s = None"
proof (induction s arbitrary: p)
  case Nil
  then show ?case using web_needs_slash [of p "[]" Map.empty]
    by (auto simp: attempt_def split: list.splits)
next
  case (Cons x xs)
  then show ?case using web_needs_slash [of p "x # xs" Map.empty]
    by (auto simp: attempt_def split: list.splits)
qed

subsection \<open>The second group\<close>

lemma run_Seq_suffix:
  assumes "\<And>st'. x \<in> set (run b st') \<Longrightarrow> P x" and "x \<in> set (run (Seq a b) st)"
  shows "P x"
  using assms by auto

lemma run_Group_Times:
  assumes "x \<in> set (run (Group i (Times n k)) (p, s, c))"
  shows "\<exists>g. x = (p + n, drop n s, c(i \<mapsto> g)) \<and> length g = n"
proof -
  from assms have n: "n \<le> length (takeWhile (in_cls k) s)"
    and x: "x = (p + n, drop n s, c(i \<mapsto> take n s))"
    by (auto split: if_splits)
  have "length (takeWhile (in_cls k) s) \<le> length s" by (rule length_takeWhile_le)
  with n have "length (take n s) = n" by simp
  with x show ?thesis by blast
qed

lemma run_Seq_mem:
  "x \<in> set (run (Seq a b) st) \<Longrightarrow> \<exists>mid. mid \<in> set (run a st) \<and> x \<in> set (run b mid)"
  by auto

lemma run_query_caps:
  "x \<in> set (run (Seq (Opt (Seq (Lit l) (Star k))) Eol) (p, s, c)) \<Longrightarrow> snd (snd x) = c"
  by (auto split: if_splits)

lemma run_Eol_caps: "x \<in> set (run Eol (p, s, c)) \<Longrightarrow> snd (snd x) = c"
  by (auto split: if_splits)

lemma id_rx_id22:
  assumes "x \<in> set (run id_rx st)"
  shows "id22 x"
proof -
  obtain p s c where st: "st = (p, s, c)" by (cases st)
  let ?q = "Seq (Opt (Seq (Lit ''?'') (Star Dot))) Eol"
  from assms have "x \<in> set (run (Seq (Group 2 (Times 22 AlphaNum)) ?q) (p, s, c))"
    by (simp only: id_rx_def seqs.simps st)
  from run_Seq_mem [OF this] obtain mid where
    mid: "mid \<in> set (run (Group 2 (Times 22 AlphaNum)) (p, s, c))"
    and x: "x \<in> set (run ?q mid)"
    by blast
  from run_Group_Times [OF mid] obtain g where
    g: "mid = (p + 22, drop 22 s, c(2 \<mapsto> g))" "length g = 22" by blast
  from x have "snd (snd x) = c(2 \<mapsto> g)"
    unfolding g(1) by (rule run_query_caps)
  with g(2) show ?thesis by (simp add: id22_def)
qed

lemma uri_id_rx_id22:
  assumes "x \<in> set (run uri_id_rx st)"
  shows "id22 x"
proof -
  obtain p s c where st: "st = (p, s, c)" by (cases st)
  from assms have "x \<in> set (run (Seq (Group 2 (Times 22 AlphaNum)) Eol) (p, s, c))"
    by (simp only: uri_id_rx_def seqs.simps st)
  from run_Seq_mem [OF this] obtain mid where
    mid: "mid \<in> set (run (Group 2 (Times 22 AlphaNum)) (p, s, c))"
    and x: "x \<in> set (run Eol mid)"
    by blast
  from run_Group_Times [OF mid] obtain g where
    g: "mid = (p + 22, drop 22 s, c(2 \<mapsto> g))" "length g = 22" by blast
  from x have "snd (snd x) = c(2 \<mapsto> g)"
    unfolding g(1) by (rule run_Eol_caps)
  with g(2) show ?thesis by (simp add: id22_def)
qed

lemma web_id22: "x \<in> set (run spotifyWebUrlRegex st) \<Longrightarrow> id22 x"
  unfolding web_rx host_rx_def locale_rx_def kind_rx_def seqs.simps
  by (erule run_Seq_suffix [rotated])+ (rule id_rx_id22)

lemma uri_rx: "spotifyUriRegex = seqs [Bol, Lit ''spotify:'', Group 1 (Plus LowerAZ), Lit '':'', uri_id_rx]"
  by (simp add: spotifyUriRegex_def uri_id_rx_def)

lemma uri_id22: "x \<in> set (run spotifyUriRegex st) \<Longrightarrow> id22 x"
  unfolding uri_rx seqs.simps
  by (erule run_Seq_suffix [rotated])+ (rule uri_id_rx_id22)

lemma attempt_result:
  "attempt r p s = Some m \<Longrightarrow> \<exists>x g. x \<in> set (run r (p, s, Map.empty)) \<and> m = (snd (snd x))(0 \<mapsto> g)"
proof -
  assume a: "attempt r p s = Some m"
  then obtain x xs where r: "run r (p, s, Map.empty) = x # xs"
    by (auto simp: attempt_def split: list.splits)
  obtain p' s' c' where x: "x = (p', s', c')" by (cases x)
  from a r x have "m = c'(0 \<mapsto> take (p' - p) s)" by (simp add: attempt_def)
  moreover from r have "x \<in> set (run r (p, s, Map.empty))" by simp
  ultimately show ?thesis using x by auto
qed

lemma exec_from_result:
  "exec_from r p s = Some m \<Longrightarrow>
     \<exists>st x g. x \<in> set (run r st) \<and> m = (snd (snd x))(0 \<mapsto> g)"
proof (induction s arbitrary: p)
  case Nil
  then have "attempt r p [] = Some m" by simp
  from attempt_result [OF this] show ?case by blast
next
  case (Cons a s)
  show ?case
  proof (cases "attempt r p (a # s)")
    case None
    with Cons show ?thesis by simp
  next
    case (Some m')
    with Cons.prems have "attempt r p (a # s) = Some m" by simp
    from attempt_result [OF this] show ?thesis by blast
  qed
qed

lemma match_id22:
  assumes "js_match inp spotifyWebUrlRegex = Some m \<or> js_match inp spotifyUriRegex = Some m"
  shows "\<exists>g. m 2 = Some g \<and> length g = 22"
proof -
  from assms have "\<exists>x g. id22 x \<and> m = (snd (snd x))(0 \<mapsto> g)"
    unfolding js_match_def by (blast dest: exec_from_result web_id22 uri_id22)
  then show ?thesis by (auto simp: id22_def)
qed

lemma parse_of_match:
  assumes "js_match inp spotifyWebUrlRegex = Some m \<or>
           js_match inp spotifyWebUrlRegex = None \<and> js_match inp spotifyUriRegex = Some m"
    and "m 1 = Some k" and "m 2 = Some i"
  shows "parseSpotifyUrl inp =
           Inr \<lparr>info_type = (case map_of validTypes k of Some t \<Rightarrow> t | None \<Rightarrow> unknown),
                info_id = i, originalUrl = inp\<rparr>"
  using assms by (auto simp: parseSpotifyUrl_def group_def)

lemma valid_kind_no_slash: "map_of validTypes kind = Some t \<Longrightarrow> CHR ''/'' \<notin> set kind"
  by (auto simp: validTypes_def split: if_splits)

lemma base62_no_slash: "list_all (in_cls AlphaNum) ident \<Longrightarrow> CHR ''/'' \<notin> set ident"
proof
  assume a: "list_all (in_cls AlphaNum) ident" and b: "CHR ''/'' \<in> set ident"
  then have "in_cls AlphaNum CHR ''/''" by (simp add: list_all_iff)
  then show False by (simp add: lower_chars_def upper_chars_def digit_chars_def)
qed

text \<open>
  C9. \<open>parseSpotifyUrl\<close> returns a \<open>SpotifyUrlInfo\<close> for every input string: the two
  reads of \<open>match[1]\<close> and \<open>match[2]\<close> never hit a \<open>null\<close> match or a group that took
  no part, so no input raises. The result carries the input as \<open>originalUrl\<close>. The
  regular expressions are literals without the \<open>g\<close> or \<open>y\<close> flag, so no
  \<open>lastIndex\<close> survives a call: the result is a function of the input alone, and two
  calls on one string return the same value.
\<close>

theorem parseSpotifyUrl_total:
  "\<exists>info. parseSpotifyUrl inp = Inr info \<and> originalUrl info = inp"
proof (cases "js_match inp spotifyWebUrlRegex")
  case None
  show ?thesis
  proof (cases "js_match inp spotifyUriRegex")
    case None
    with \<open>js_match inp spotifyWebUrlRegex = None\<close> show ?thesis
      by (simp add: parseSpotifyUrl_def)
  next
    case (Some m)
    with match_groups [of inp m] \<open>js_match inp spotifyWebUrlRegex = None\<close> show ?thesis
      by (auto simp: parseSpotifyUrl_def group_def)
  qed
next
  case (Some m)
  with match_groups [of inp m] show ?thesis
    by (auto simp: parseSpotifyUrl_def group_def)
qed

text \<open>
  C2, as the code has it. When one of the two grammars matches and the captured type name
  is none of \<open>validTypes\<close>, the result has type \<open>unknown\<close> and carries the input as
  \<open>originalUrl\<close>, but its \<open>id\<close> is the captured 22-character identifier, not the
  empty string: only the branch without any match returns the empty \<open>id\<close>.
\<close>

theorem parseSpotifyUrl_unknown_kind:
  assumes "js_match inp spotifyWebUrlRegex = Some m \<or>
           js_match inp spotifyWebUrlRegex = None \<and> js_match inp spotifyUriRegex = Some m"
    and "m 1 = Some k" and "map_of validTypes k = None"
  shows "\<exists>i. m 2 = Some i \<and> length i = 22 \<and>
           parseSpotifyUrl inp = Inr \<lparr>info_type = unknown, info_id = i, originalUrl = inp\<rparr>"
proof -
  from assms(1) match_id22 [of inp m] obtain i where i: "m 2 = Some i" "length i = 22"
    by blast
  from parse_of_match [OF assms(1,2) i(1)] assms(3) i show ?thesis by simp
qed

theorem parseSpotifyUrl_unknown_kind_witness:
  "js_match ''spotify:show:4rOoJ6Egrf8K2IrywzwOMk'' spotifyWebUrlRegex = None
   \<and> group (js_match ''spotify:show:4rOoJ6Egrf8K2IrywzwOMk'' spotifyUriRegex) 1 = Inr ''show''
   \<and> map_of validTypes ''show'' = None
   \<and> (\<exists>i. length i = 22 \<and>
          parseSpotifyUrl ''spotify:show:4rOoJ6Egrf8K2IrywzwOMk'' = Inr \<lparr>info_type = unknown, info_id = i, originalUrl = ''spotify:show:4rOoJ6Egrf8K2IrywzwOMk''\<rparr>)"
proof -
  have w: "js_match ''spotify:show:4rOoJ6Egrf8K2IrywzwOMk'' spotifyWebUrlRegex = None"
    unfolding js_match_def by (rule web_no_slash) simp
  have g: "group (js_match ''spotify:show:4rOoJ6Egrf8K2IrywzwOMk'' spotifyUriRegex) 1 = Inr ''show''"
    by code_simp
  then obtain m where m: "js_match ''spotify:show:4rOoJ6Egrf8K2IrywzwOMk'' spotifyUriRegex = Some m" "m 1 = Some ''show''"
    by (auto simp: group_def split: option.splits)
  have v: "map_of validTypes ''show'' = None"
    by (simp add: validTypes_def)
  from parseSpotifyUrl_unknown_kind [OF disjI2 [OF conjI [OF w m(1)]] m(2) v] w g v
  show ?thesis by blast
qed

text \<open>
  The claim as stated fails on \<open>spotify:show:4rOoJ6Egrf8K2IrywzwOMk\<close>: the URI grammar
  matches, \<open>show\<close> is no valid type, and the returned \<open>id\<close> is not empty.
\<close>

theorem parseSpotifyUrl_unknown_kind_counterexample:
  "group (js_match ''spotify:show:4rOoJ6Egrf8K2IrywzwOMk'' spotifyUriRegex) 1 = Inr ''show''
   \<and> map_of validTypes ''show'' = None
   \<and> parseSpotifyUrl ''spotify:show:4rOoJ6Egrf8K2IrywzwOMk'' =
       Inr \<lparr>info_type = unknown, info_id = ''4rOoJ6Egrf8K2IrywzwOMk'', originalUrl = ''spotify:show:4rOoJ6Egrf8K2IrywzwOMk''\<rparr>
   \<and> parseSpotifyUrl ''spotify:show:4rOoJ6Egrf8K2IrywzwOMk'' \<noteq> Inr \<lparr>info_type = unknown, info_id = [], originalUrl = ''spotify:show:4rOoJ6Egrf8K2IrywzwOMk''\<rparr>"
  by code_simp

text \<open>
  C8. A web URL \<open>http(s)://(open.)spotify.com/(intl-xx/)kind/id(?query)\<close> whose kind is
  one of \<open>validTypes\<close> and whose id is 22 characters of \<open>[a-zA-Z0-9]\<close> parses to that
  kind and that id; so does the URI \<open>spotify:kind:id\<close>. The web grammar is tried first:
  whenever it matches, the result is built from its groups alone.
\<close>

theorem parseSpotifyUrl_valid:
  assumes "map_of validTypes kind = Some t"
    and "length ident = 22" and "list_all (in_cls AlphaNum) ident"
    and "scheme = ''http'' \<or> scheme = ''https''"
    and "host = ''spotify.com'' \<or> host = ''open.spotify.com''"
    and "is_locale locale" and "is_query query"
  shows "parseSpotifyUrl (scheme @ ''://'' @ host @ ''/'' @ locale @ kind @ ''/'' @ ident @ query) =
           Inr \<lparr>info_type = t, info_id = ident,
                originalUrl = scheme @ ''://'' @ host @ ''/'' @ locale @ kind @ ''/'' @ ident @ query\<rparr>
       \<and> parseSpotifyUrl (''spotify:'' @ kind @ '':'' @ ident) =
           Inr \<lparr>info_type = t, info_id = ident, originalUrl = ''spotify:'' @ kind @ '':'' @ ident\<rparr>
       \<and> (\<forall>u m. js_match u spotifyWebUrlRegex = Some m \<longrightarrow>
            parseSpotifyUrl u =
              Inr \<lparr>info_type = (case map_of validTypes (the (m 1)) of Some t \<Rightarrow> t | None \<Rightarrow> unknown),
                   info_id = the (m 2), originalUrl = u\<rparr>)"
proof (intro conjI allI impI)
  let ?u = "scheme @ ''://'' @ host @ ''/'' @ locale @ kind @ ''/'' @ ident @ query"
  from first_web [OF assms(2,3,7,1,6,4,5)] obtain p' where
    "first spotifyWebUrlRegex (0, ?u, Map.empty) (p', [], [1 \<mapsto> kind, 2 \<mapsto> ident])" by blast
  from first_match [OF this] obtain g where
    jm: "js_match ?u spotifyWebUrlRegex = Some ([1 \<mapsto> kind, 2 \<mapsto> ident, 0 \<mapsto> g])" by blast
  have m1: "[1 \<mapsto> kind, 2 \<mapsto> ident, 0 \<mapsto> g] (1::nat) = Some kind"
    and m2: "[1 \<mapsto> kind, 2 \<mapsto> ident, 0 \<mapsto> g] (2::nat) = Some ident" by simp_all
  from parse_of_match [OF disjI1 [OF jm] m1 m2] assms(1)
  show "parseSpotifyUrl ?u = Inr \<lparr>info_type = t, info_id = ident, originalUrl = ?u\<rparr>"
    by (simp only: option.case)
next
  let ?u = "''spotify:'' @ kind @ '':'' @ ident"
  from valid_kind_no_slash [OF assms(1)] base62_no_slash [OF assms(3)] have "CHR ''/'' \<notin> set ?u" by simp
  then have w: "js_match ?u spotifyWebUrlRegex = None"
    unfolding js_match_def by (rule web_no_slash)
  from first_uri [OF assms(2,3,1)] obtain p' where
    "first spotifyUriRegex (0, ?u, Map.empty) (p', [], [1 \<mapsto> kind, 2 \<mapsto> ident])" by blast
  from first_match [OF this] obtain g where
    jm: "js_match ?u spotifyUriRegex = Some ([1 \<mapsto> kind, 2 \<mapsto> ident, 0 \<mapsto> g])" by blast
  have m1: "[1 \<mapsto> kind, 2 \<mapsto> ident, 0 \<mapsto> g] (1::nat) = Some kind"
    and m2: "[1 \<mapsto> kind, 2 \<mapsto> ident, 0 \<mapsto> g] (2::nat) = Some ident" by simp_all
  from parse_of_match [OF disjI2 [OF conjI [OF w jm]] m1 m2] assms(1)
  show "parseSpotifyUrl ?u = Inr \<lparr>info_type = t, info_id = ident, originalUrl = ?u\<rparr>"
    by (simp only: option.case)
next
  fix u m
  assume m: "js_match u spotifyWebUrlRegex = Some m"
  from match_groups [of u m] m obtain a b where ab: "m 1 = Some a" "m 2 = Some b" by blast
  from parse_of_match [OF disjI1 [OF m] ab] ab show "parseSpotifyUrl u =
      Inr \<lparr>info_type = (case map_of validTypes (the (m 1)) of Some t \<Rightarrow> t | None \<Rightarrow> unknown),
           info_id = the (m 2), originalUrl = u\<rparr>"
    by simp
qed

theorem parseSpotifyUrl_valid_witness:
  "map_of validTypes ''track'' = Some track
   \<and> length ''4iV5W9uYEdYUVa79Axb7Rh'' = 22
   \<and> list_all (in_cls AlphaNum) ''4iV5W9uYEdYUVa79Axb7Rh''
   \<and> is_locale [] \<and> is_query []
   \<and> parseSpotifyUrl ''https://open.spotify.com/track/4iV5W9uYEdYUVa79Axb7Rh'' =
       Inr \<lparr>info_type = track, info_id = ''4iV5W9uYEdYUVa79Axb7Rh'',
            originalUrl = ''https://open.spotify.com/track/4iV5W9uYEdYUVa79Axb7Rh''\<rparr>
   \<and> parseSpotifyUrl ''spotify:track:4iV5W9uYEdYUVa79Axb7Rh'' =
       Inr \<lparr>info_type = track, info_id = ''4iV5W9uYEdYUVa79Axb7Rh'',
            originalUrl = ''spotify:track:4iV5W9uYEdYUVa79Axb7Rh''\<rparr>"
proof -
  have k: "map_of validTypes ''track'' = Some track"
    by (simp add: validTypes_def)
  have l: "length ''4iV5W9uYEdYUVa79Axb7Rh'' = 22" by simp
  have a: "list_all (in_cls AlphaNum) ''4iV5W9uYEdYUVa79Axb7Rh''"
    by (simp add: lower_chars_def upper_chars_def digit_chars_def)
  have lo: "is_locale []" by (simp add: is_locale_def)
  have q: "is_query []" by (simp add: is_query_def)
  from parseSpotifyUrl_valid [OF k l a disjI2 [OF refl] disjI2 [OF refl] lo q] k l a lo q
  show ?thesis by simp
qed

section \<open>Properties of the catalogue pages\<close>

lemma tracks_body_next:
  assumes "tracks_body rest ident off = Inr page"
  shows "next page = (if off + 10 \<le> total_p page then Some (off + 10) else None)"
  using assms
  by (auto simp: tracks_body_def split: sum.splits page_reply.splits if_splits)

lemma playlist_tracks_next:
  assumes "playlist_tracks on rest ident off = Inr page"
  shows "next page = (if off + 10 \<le> total_p page then Some (off + 10) else None)"
  using assms tracks_body_next [of rest ident off page]
  by (auto simp: playlist_tracks_def split: sum.splits if_splits)

lemma album_tracks_next:
  assumes "album_tracks on rest ident off = Inr page"
  shows "next page = (if off + 10 \<le> total_p page then Some (off + 10) else None)"
  using assms tracks_body_next [of rest ident off page]
  by (auto simp: album_tracks_def split: sum.splits if_splits)

text \<open>
  A collection of 25 tracks: the pages requested at offsets 0, 10 and 20 carry the next
  offsets 10, 20 and none.
\<close>

lemma tracks_next_total_25:
  "map (\<lambda>off. map_sum id next
          (playlist_tracks True (\<lambda>i off. Inr (PageReply 25 off [])) pid off)) [0, 10, 20]
     = [Inr (Some 10), Inr (Some 20), Inr None]"
  "map (\<lambda>off. map_sum id next
          (album_tracks True (\<lambda>i off. Inr (PageReply 25 off [])) aid off)) [0, 10, 20]
     = [Inr (Some 10), Inr (Some 20), Inr None]"
  by (simp_all add: playlist_tracks_def album_tracks_def tracks_body_def)

text \<open>
  C3. The claim asks for a next offset exactly when \<open>offset + 10 < total\<close>. The source
  tests \<open>offset + 10 > total\<close> for its absence, so a page that ends exactly at the
  total still carries one: the second page of a collection of 20 tracks, requested at
  offset 10, has next offset 20, in the playlist class and in the album class alike.
\<close>

theorem tracks_next_at_total:
  "map_sum id next
     (playlist_tracks True (\<lambda>i off. Inr (PageReply 20 off (replicate 10 (Some t)))) pid 10)
     = Inr (Some 20)
   \<and> map_sum id next
     (album_tracks True (\<lambda>i off. Inr (PageReply 20 off (replicate 10 (Some t)))) aid 10)
     = Inr (Some 20)"
proof -
  have "\<exists>r. parseTracks (replicate n (Some t)) = Inr r" for n
    by (induction n) auto
  then obtain r where "parseTracks (replicate 10 (Some t)) = Inr r" by blast
  then show ?thesis
    by (simp add: playlist_tracks_def album_tracks_def tracks_body_def)
qed

section \<open>Properties of the ranking\<close>

lemma ratio_decisive:
  assumes "0 \<le> x"
  shows "(js_gt (js_div y x) 1.3 \<or> js_lt (js_div y x) 0.7) \<longleftrightarrow> (y > 1.3 * x \<or> y < 0.7 * x)"
proof (cases "x = 0")
  case True
  then show ?thesis by (auto simp: js_div_def)
next
  case False
  with assms have "0 < x" by simp
  then show ?thesis by (auto simp: js_div_def field_simps)
qed

text \<open>
  C4, as the code has it. For two results that both have \<open>ago\<close>, the comparator
  returns from its views branch, with \<open>b.views - a.views\<close> (more views first), exactly
  when \<open>b.views / a.views\<close> is above 1.3 or below 0.7: when the views of \<open>b\<close> differ
  from those of \<open>a\<close> by more than 30 percent of the views of \<open>a\<close>, the first argument.
  The test is not the same in both argument orders.
\<close>

theorem compareVideos_views_decisive:
  assumes "ago a = Some aAgo" and "ago b = Some bAgo" and "0 \<le> views a"
  shows "(fst (compareVideos a b) = ByViews \<longleftrightarrow>
            real_of_int (views b) > 1.3 * real_of_int (views a) \<or>
            real_of_int (views b) < 0.7 * real_of_int (views a))
       \<and> (fst (compareVideos a b) = ByViews \<longrightarrow>
            snd (compareVideos a b) = real_of_int (views b) - real_of_int (views a))"
proof -
  have "0 \<le> real_of_int (views a)" using assms(3) by simp
  from ratio_decisive [OF this, of "real_of_int (views b)"] assms(1,2)
  show ?thesis by (auto simp: compareVideos_def Let_def)
qed

theorem compareVideos_views_decisive_witness:
  "ago \<lparr>url = ''a'', title = ''A'', views = 100, seconds = 300, ago = Some ''1 year ago''\<rparr> = Some ''1 year ago''
   \<and> ago \<lparr>url = ''b'', title = ''B'', views = 140, seconds = 900, ago = Some ''1 year ago''\<rparr> = Some ''1 year ago''
   \<and> (0::int) \<le> 100
   \<and> compareVideos
       \<lparr>url = ''a'', title = ''A'', views = 100, seconds = 300, ago = Some ''1 year ago''\<rparr>
       \<lparr>url = ''b'', title = ''B'', views = 140, seconds = 900, ago = Some ''1 year ago''\<rparr>
     = (ByViews, 40)"
  using compareVideos_views_decisive [of "\<lparr>url = ''a'', title = ''A'', views = 100, seconds = 300, ago = Some ''1 year ago''\<rparr>"
      "''1 year ago''"
      "\<lparr>url = ''b'', title = ''B'', views = 140, seconds = 900, ago = Some ''1 year ago''\<rparr>"
      "''1 year ago''"]
  by (simp add: prod_eq_iff)

text \<open>
  The claim as stated fails for 100 and 75 views: the larger count is more than 1.3 times
  the smaller, yet comparing in this order falls through to the duration, while comparing
  in the other order decides by views.
\<close>

theorem compareVideos_views_decisive_counterexample:
  "real_of_int (max 100 75) / real_of_int (min 100 75) > 1.3
   \<and> fst (compareVideos
       \<lparr>url = ''a'', title = ''A'', views = 100, seconds = 300, ago = Some ''1 year ago''\<rparr>
       \<lparr>url = ''b'', title = ''B'', views = 75, seconds = 200, ago = Some ''1 year ago''\<rparr>)
     = ByDuration
   \<and> fst (compareVideos
       \<lparr>url = ''b'', title = ''B'', views = 75, seconds = 200, ago = Some ''1 year ago''\<rparr>
       \<lparr>url = ''a'', title = ''A'', views = 100, seconds = 300, ago = Some ''1 year ago''\<rparr>)
     = ByViews"
  by code_simp

text \<open>
  C5, as the code has it. For two results that both lack \<open>ago\<close>, the comparator orders by
  duration, shorter first, exactly when the views differ by less than 20 percent of the
  views of \<open>b\<close>, the second argument; otherwise it orders by views, more views first.
\<close>

theorem compareVideos_missing_recency:
  assumes "ago a = None" and "ago b = None"
  shows "compareVideos a b =
           (if \<bar>real_of_int (views b) - real_of_int (views a)\<bar> < 0.2 * real_of_int (views b)
            then (ByDuration, real_of_int (seconds a) - real_of_int (seconds b))
            else (ByViews, real_of_int (views b) - real_of_int (views a)))"
  using assms by (simp add: compareVideos_def Let_def mult.commute)

theorem compareVideos_missing_recency_witness:
  "ago \<lparr>url = ''a'', title = ''A'', views = 82, seconds = 300, ago = None\<rparr> = None
   \<and> ago \<lparr>url = ''b'', title = ''B'', views = 100, seconds = 200, ago = None\<rparr> = None
   \<and> compareVideos
       \<lparr>url = ''a'', title = ''A'', views = 82, seconds = 300, ago = None\<rparr>
       \<lparr>url = ''b'', title = ''B'', views = 100, seconds = 200, ago = None\<rparr>
     = (ByDuration, 100)"
  using compareVideos_missing_recency [of "\<lparr>url = ''a'', title = ''A'', views = 82, seconds = 300, ago = None\<rparr>"
      "\<lparr>url = ''b'', title = ''B'', views = 100, seconds = 200, ago = None\<rparr>"]
  by simp

text \<open>
  The claim as stated fails for 100 and 82 views: the difference 18 is below 20 percent of
  the larger count, yet comparing in this order decides by views (18 is not below 20
  percent of 82), while comparing in the other order decides by duration.
\<close>

theorem compareVideos_missing_recency_counterexample:
  "\<bar>real_of_int 100 - real_of_int 82\<bar> < 0.2 * real_of_int (max 100 82)
   \<and> compareVideos
       \<lparr>url = ''a'', title = ''A'', views = 100, seconds = 300, ago = None\<rparr>
       \<lparr>url = ''b'', title = ''B'', views = 82, seconds = 200, ago = None\<rparr>
     = (ByViews, - 18)
   \<and> compareVideos
       \<lparr>url = ''b'', title = ''B'', views = 82, seconds = 200, ago = None\<rparr>
       \<lparr>url = ''a'', title = ''A'', views = 100, seconds = 300, ago = None\<rparr>
     = (ByDuration, - 100)"
  by code_simp

lemma agoRegex_groups:
  assumes "js_match s agoRegex = Some m"
  shows "\<exists>g1 g2. m 1 = Some g1 \<and> m 2 = Some g2"
proof -
  have "sure agoRegex = {1, 2}" by (auto simp: agoRegex_def)
  with assms exec_from_dom [of agoRegex 0 s m] have "{1, 2} \<subseteq> dom m"
    by (simp add: js_match_def)
  then show ?thesis by auto
qed

lemma compare_missing:
  "ago a = None \<Longrightarrow> ago b \<noteq> None \<Longrightarrow> snd (compareVideos a b) = 1"
  "ago a \<noteq> None \<Longrightarrow> ago b = None \<Longrightarrow> snd (compareVideos a b) = - 1"
  by (auto simp: compareVideos_def)

lemma known_first_neighbours:
  "neighbours_agree (\<lambda>a b. snd (compareVideos a b)) vs \<Longrightarrow> known_first vs"
proof (induction vs rule: known_first.induct)
  case 1
  then show ?case by simp
next
  case (2 v vs)
  show ?case
  proof (cases vs)
    case Nil
    then show ?thesis by simp
  next
    case (Cons y ys)
    with "2.prems" have agree: "snd (compareVideos v y) \<le> 0 \<or> 0 \<le> snd (compareVideos y v)"
      and rest: "neighbours_agree (\<lambda>a b. snd (compareVideos a b)) vs"
      by simp_all
    from "2.IH" [OF rest] have kf: "known_first vs" .
    have "list_all (\<lambda>w. ago w = None) vs" if v: "ago v = None"
    proof -
      have "ago y = None"
      proof (rule ccontr)
        assume "ago y \<noteq> None"
        with v compare_missing(1) [of v y] compare_missing(2) [of y v] agree show False
          by simp
      qed
      with kf Cons show ?thesis by simp
    qed
    with kf show ?thesis by auto
  qed
qed

lemma mset_insert_sorted: "mset (insert_sorted cmp x ys) = add_mset x (mset ys)"
  by (induction ys) auto

lemma mset_insertion_aux:
  "mset (foldl (\<lambda>sorted x. insert_sorted cmp x sorted) acc xs) = mset acc + mset xs"
  by (induction xs arbitrary: acc) (auto simp: mset_insert_sorted)

lemma agree_insert_sorted:
  "neighbours_agree cmp ys \<Longrightarrow> neighbours_agree cmp (insert_sorted cmp x ys)"
proof (induction ys rule: neighbours_agree.induct)
  case (1 cmp)
  then show ?case by simp
next
  case (2 cmp y)
  then show ?case by auto
next
  case (3 cmp y z ys)
  then show ?case by auto
qed

lemma agree_insertion_aux:
  "neighbours_agree cmp acc \<Longrightarrow>
     neighbours_agree cmp (foldl (\<lambda>sorted x. insert_sorted cmp x sorted) acc xs)"
  by (induction xs arbitrary: acc) (auto intro: agree_insert_sorted)

lemma engine_sort_insertion: "engine_sort insertion_sort"
  by (simp add: engine_sort_def insertion_sort_def mset_insertion_aux agree_insertion_aux)

lemma bsearch_place:
  "left \<le> right \<Longrightarrow>
     left \<le> bsearch cmp pivot a left right \<and> bsearch cmp pivot a left right \<le> right \<and>
     (bsearch cmp pivot a left right < right \<longrightarrow>
        cmp pivot (a ! bsearch cmp pivot a left right) < 0) \<and>
     (left < bsearch cmp pivot a left right \<longrightarrow>
        0 \<le> cmp pivot (a ! (bsearch cmp pivot a left right - 1)))"
proof (induction cmp pivot a left right rule: bsearch.induct)
  case (1 cmp pivot a left right)
  show ?case
  proof (cases "left < right")
    case False
    with "1.prems" show ?thesis by (simp add: bsearch.simps)
  next
    case True
    define mid where "mid = left + (right - left) div 2"
    from True have mid: "left \<le> mid" "mid < right" by (auto simp: mid_def)
    show ?thesis
    proof (cases "cmp pivot (a ! mid) < 0")
      case less: True
      have eq: "bsearch cmp pivot a left right = bsearch cmp pivot a left mid"
        using True less by (subst bsearch.simps) (simp add: mid_def Let_def)
      from "1.IH"(1) [OF True mid_def less mid(1)]
      show ?thesis unfolding eq using mid less
        by (cases "bsearch cmp pivot a left mid = mid") auto
    next
      case geq: False
      have eq: "bsearch cmp pivot a left right = bsearch cmp pivot a (Suc mid) right"
        using True geq by (subst bsearch.simps) (simp add: mid_def Let_def)
      from mid have "Suc mid \<le> right" by simp
      from "1.IH"(2) [OF True mid_def geq this]
      show ?thesis unfolding eq using mid geq
        by (cases "bsearch cmp pivot a (Suc mid) right = Suc mid") auto
    qed
  qed
qed

lemma agree_place:
  "neighbours_agree cmp a \<Longrightarrow> p \<le> length a \<Longrightarrow>
     (p < length a \<longrightarrow> cmp x (a ! p) < 0) \<Longrightarrow>
     (0 < p \<longrightarrow> 0 \<le> cmp x (a ! (p - 1))) \<Longrightarrow>
     neighbours_agree cmp (take p a @ x # drop p a)"
proof (induction a arbitrary: p)
  case Nil
  then show ?case by simp
next
  case (Cons y ys)
  show ?case
  proof (cases p)
    case 0
    with Cons.prems show ?thesis by simp
  next
    case (Suc q)
    from Cons.prems Suc have q: "q \<le> length ys" "q < length ys \<longrightarrow> cmp x (ys ! q) < 0"
      by auto
    have prev: "0 < q \<longrightarrow> 0 \<le> cmp x (ys ! (q - 1))"
      using Cons.prems(4) Suc by (cases q) auto
    from Cons.prems(1) have "neighbours_agree cmp ys" by (cases ys) auto
    from Cons.IH [OF this q prev] have ih: "neighbours_agree cmp (take q ys @ x # drop q ys)" .
    show ?thesis
    proof (cases q)
      case 0
      with Cons.prems(4) Suc have "0 \<le> cmp x y" by simp
      with ih 0 Suc show ?thesis by simp
    next
      case (Suc q')
      then obtain z zs where ys: "ys = z # zs" using q(1) by (cases ys) auto
      with Cons.prems(1) have "cmp y z \<le> 0 \<or> 0 \<le> cmp z y" by simp
      with ih ys Suc \<open>p = Suc q\<close> show ?thesis by simp
    qed
  qed
qed

lemma agree_binary_insert:
  "neighbours_agree cmp a \<Longrightarrow> neighbours_agree cmp (binary_insert cmp a x)"
  unfolding binary_insert_def Let_def
  using bsearch_place [of 0 "length a" cmp x a]
  by (intro agree_place) auto

lemma mset_binary_insert: "mset (binary_insert cmp a x) = add_mset x (mset a)"
proof -
  have "mset (take p a) + mset (drop p a) = mset a" for p
    by (metis append_take_drop_id mset_append)
  then show ?thesis by (simp add: binary_insert_def Let_def)
qed

lemma agree_foldl_binary:
  "neighbours_agree cmp a \<Longrightarrow> neighbours_agree cmp (foldl (binary_insert cmp) a xs)"
  by (induction xs arbitrary: a) (auto intro: agree_binary_insert)

lemma mset_foldl_binary: "mset (foldl (binary_insert cmp) a xs) = mset a + mset xs"
  by (induction xs arbitrary: a) (auto simp: mset_binary_insert)

lemma agree_ascending:
  "neighbours_agree cmp (prev # take (run_more cmp False prev xs) xs)"
  by (induction xs arbitrary: prev) auto

lemma agree_snoc:
  "neighbours_agree cmp (ys @ [x]) \<longleftrightarrow>
     neighbours_agree cmp ys \<and> (ys = [] \<or> cmp (last ys) x \<le> 0 \<or> 0 \<le> cmp x (last ys))"
  by (induction ys rule: neighbours_agree.induct) auto

lemma agree_descending:
  "neighbours_agree cmp (rev (take (run_more cmp True prev xs) xs) @ [prev])"
proof (induction xs arbitrary: prev)
  case Nil
  then show ?case by simp
next
  case (Cons x xs)
  show ?case
  proof (cases "cmp x prev < 0")
    case False
    then show ?thesis by simp
  next
    case True
    let ?r = "rev (take (run_more cmp True x xs) xs)"
    from Cons [of x] have "neighbours_agree cmp (?r @ [x])" .
    moreover have "cmp (last (?r @ [x])) prev \<le> 0" using True by simp
    ultimately have "neighbours_agree cmp ((?r @ [x]) @ [prev])"
      by (subst agree_snoc) simp
    with True show ?thesis by simp
  qed
qed

lemma first_run_agree: "neighbours_agree cmp (fst (first_run cmp xs))"
proof (induction cmp xs rule: first_run.induct)
  case (3 cmp x y ys)
  show ?case
  proof (cases "cmp y x < 0")
    case True
    let ?r = "rev (take (run_more cmp True y ys) ys)"
    from agree_descending [of cmp y ys] have "neighbours_agree cmp (?r @ [y])" .
    moreover have "cmp (last (?r @ [y])) x \<le> 0" using True by simp
    ultimately have "neighbours_agree cmp ((?r @ [y]) @ [x])"
      by (subst agree_snoc) simp
    with True show ?thesis by (simp add: Let_def)
  next
    case False
    with agree_ascending [of cmp y ys] show ?thesis by (simp add: Let_def)
  qed
qed simp_all

lemma first_run_mset: "mset (fst (first_run cmp xs)) + mset (snd (first_run cmp xs)) = mset xs"
proof (induction cmp xs rule: first_run.induct)
  case (3 cmp x y ys)
  have "mset (take n ys) + mset (drop n ys) = mset ys" for n
    by (metis append_take_drop_id mset_append)
  then show ?case by (simp add: Let_def)
qed simp_all

lemma engine_sort_run_binary: "engine_sort run_binary_sort"
  unfolding engine_sort_def run_binary_sort_def
proof (intro allI conjI)
  fix cmp :: "'a \<Rightarrow> 'a \<Rightarrow> real" and xs
  obtain r rest where fr: "first_run cmp xs = (r, rest)" by (cases "first_run cmp xs")
  from first_run_agree [of cmp xs] first_run_mset [of cmp xs] fr
  have "neighbours_agree cmp r" "mset r + mset rest = mset xs" by simp_all
  then show "mset (case first_run cmp xs of (r, rest) \<Rightarrow> foldl (binary_insert cmp) r rest) = mset xs"
    and "neighbours_agree cmp (case first_run cmp xs of (r, rest) \<Rightarrow> foldl (binary_insert cmp) r rest)"
    by (simp_all add: fr mset_foldl_binary agree_foldl_binary)
qed

lemma agree_front:
  "neighbours_agree cmp (x # zs) \<longleftrightarrow>
     (zs = [] \<or> (cmp x (hd zs) \<le> 0 \<or> 0 \<le> cmp (hd zs) x) \<and> neighbours_agree cmp zs)"
  by (cases zs) auto

lemma agree_merge_runs:
  "neighbours_agree cmp xs \<Longrightarrow> neighbours_agree cmp ys \<Longrightarrow>
     neighbours_agree cmp (merge_runs cmp xs ys)"
proof (induction cmp xs ys rule: merge_runs.induct)
  case (3 cmp x xs y ys)
  show ?case
  proof (cases "cmp y x < 0")
    case True
    from "3.prems" have ys: "neighbours_agree cmp ys" by (cases ys) auto
    from "3.IH"(1) [OF True "3.prems"(1) ys]
    have ih: "neighbours_agree cmp (merge_runs cmp (x # xs) ys)" .
    have "cmp y (hd (merge_runs cmp (x # xs) ys)) \<le> 0 \<or> 0 \<le> cmp (hd (merge_runs cmp (x # xs) ys)) y"
    proof (cases ys)
      case Nil
      with True show ?thesis by simp
    next
      case (Cons y' ys')
      with "3.prems"(2) have "cmp y y' \<le> 0 \<or> 0 \<le> cmp y' y" by simp
      with True Cons show ?thesis by auto
    qed
    with ih True show ?thesis by (simp add: agree_front)
  next
    case False
    from "3.prems" have xs: "neighbours_agree cmp xs" by (cases xs) auto
    from "3.IH"(2) [OF False xs "3.prems"(2)]
    have ih: "neighbours_agree cmp (merge_runs cmp xs (y # ys))" .
    have "cmp x (hd (merge_runs cmp xs (y # ys))) \<le> 0 \<or> 0 \<le> cmp (hd (merge_runs cmp xs (y # ys))) x"
    proof (cases xs)
      case Nil
      with False show ?thesis by simp
    next
      case (Cons x' xs')
      with "3.prems"(1) have "cmp x x' \<le> 0 \<or> 0 \<le> cmp x' x" by simp
      with False Cons show ?thesis by auto
    qed
    with ih False show ?thesis by (simp add: agree_front)
  qed
qed simp_all

lemma mset_merge_runs: "mset (merge_runs cmp xs ys) = mset xs + mset ys"
  by (induction cmp xs ys rule: merge_runs.induct) auto

lemma known_first_nth:
  "known_first vs \<Longrightarrow> i < j \<Longrightarrow> j < length vs \<Longrightarrow> ago (vs ! i) = None \<Longrightarrow> ago (vs ! j) = None"
proof (induction vs arbitrary: i j)
  case Nil
  then show ?case by simp
next
  case (Cons v vs)
  show ?case
  proof (cases i)
    case 0
    with Cons.prems obtain j' where "j = Suc j'" "j' < length vs" by (cases j) auto
    with Cons.prems 0 show ?thesis by (auto simp: list_all_length)
  next
    case (Suc i')
    with Cons.prems obtain j' where "j = Suc j'" "i' < j'" "j' < length vs" by (cases j) auto
    with Cons Suc show ?thesis by auto
  qed
qed

text \<open>
  C6. Whichever sort the engine runs, as long as it is an \<open>engine_sort\<close>: the output of
  \<open>sortVideos\<close> is a rearrangement of its input in which every result that has \<open>ago\<close>
  stands before every result that lacks it. On a pair of which one lacks \<open>ago\<close> the
  comparator answers 1 or -1 whatever the views: a missing \<open>ago\<close> is not read as an age
  of zero.
\<close>

theorem sortVideos_known_first:
  assumes "engine_sort srt"
  shows "mset (sortVideos srt vs) = mset vs \<and>
   (\<forall>i j. i < length vs \<and> j < length vs \<and>
      ago (sortVideos srt vs ! i) \<noteq> None \<and> ago (sortVideos srt vs ! j) = None \<longrightarrow> i < j)"
proof (intro conjI allI impI)
  show m: "mset (sortVideos srt vs) = mset vs"
    using assms by (simp add: sortVideos_def engine_sort_def)
  have "neighbours_agree (\<lambda>a b. snd (compareVideos a b)) (sortVideos srt vs)"
    using assms by (simp add: sortVideos_def engine_sort_def)
  then have kf: "known_first (sortVideos srt vs)" by (rule known_first_neighbours)
  fix i j
  assume a: "i < length vs \<and> j < length vs \<and>
      ago (sortVideos srt vs ! i) \<noteq> None \<and> ago (sortVideos srt vs ! j) = None"
  have len: "length (sortVideos srt vs) = length vs"
    using m by (metis size_mset)
  show "i < j"
  proof (rule ccontr)
    assume "\<not> i < j"
    with a have "j < i" by (cases "i = j") auto
    from known_first_nth [OF kf this] a len show False by auto
  qed
qed

theorem sortVideos_known_first_witness:
  "engine_sort (run_binary_sort :: (VideoSearchResult \<Rightarrow> VideoSearchResult \<Rightarrow> real) \<Rightarrow> _)
   \<and> map ago (sortVideos run_binary_sort ex_ranked) =
       [Some ''1 year ago'', Some ''1 year ago'', Some ''1 year ago'', None]
   \<and> mset (sortVideos run_binary_sort ex_ranked) = mset ex_ranked"
proof -
  have e: "map ago (sortVideos run_binary_sort ex_ranked) =
       [Some ''1 year ago'', Some ''1 year ago'', Some ''1 year ago'', None]"
    by code_simp
  from sortVideos_known_first [OF engine_sort_run_binary, of ex_ranked] e
    engine_sort_run_binary [where ?'a = VideoSearchResult]
  show ?thesis by simp
qed

text \<open>
  The two sorts of the model return different orders on \<open>ex_ranked\<close>, where the
  comparator answers against itself (the last video comes before the first by views, and
  after the third by duration); the result without \<open>ago\<close> is last in both.
\<close>

lemma ex_ranked_sorts:
  "map url (sortVideos insertion_sort ex_ranked) = [''v2'', ''v0'', ''v1'', ''u'']"
  "map url (sortVideos run_binary_sort ex_ranked) = [''v0'', ''v1'', ''v2'', ''u'']"
  by code_simp+

section \<open>Properties of the downloads\<close>

lemma foldl_settled:
  "foldl on_event (Fulfilled v) es = Fulfilled v"
  "foldl on_event (Rejected r) es = Rejected r"
  by (induction es) auto

lemma settle_finished:
  "finished_run es \<Longrightarrow>
     foldl on_event Pending es =
       (case stderr_chunks es of
          d # _ \<Rightarrow> Rejected (Text d)
        | [] \<Rightarrow> if last es = Close (Some 0) then Fulfilled True else Pending)"
proof (induction es rule: finished_run.induct)
  case 1
  then show ?case by simp
next
  case (2 e)
  then show ?case by (cases e) auto
next
  case (3 e e' es)
  then show ?case by (cases e) (auto simp: foldl_settled)
qed

text \<open>
  C10. The promise of \<open>downloadMp3\<close> settles in two ways only. It is rejected with the
  text of the first chunk the subprocess writes to standard error; it is fulfilled with
  \<open>true\<close> when the subprocess closes with exit code 0, having written nothing there (a
  chunk on standard error comes before \<open>close\<close> and has settled the promise by then).
  After a run that wrote nothing to standard error and closed with another code, the
  promise is still pending, and no later event will settle it.
\<close>

theorem downloadMp3_settles:
  assumes "finished_run (spawn ''yt-dlp'' (ytdlp_args u path))"
  shows "(downloadMp3 spawn u path = Fulfilled True \<longleftrightarrow>
            stderr_chunks (spawn ''yt-dlp'' (ytdlp_args u path)) = [] \<and>
            last (spawn ''yt-dlp'' (ytdlp_args u path)) = Close (Some 0))
       \<and> (downloadMp3 spawn u path = Rejected r \<longleftrightarrow>
            (\<exists>d ds. stderr_chunks (spawn ''yt-dlp'' (ytdlp_args u path)) = d # ds \<and> r = Text d))
       \<and> (downloadMp3 spawn u path = Pending \<longleftrightarrow>
            stderr_chunks (spawn ''yt-dlp'' (ytdlp_args u path)) = [] \<and>
            last (spawn ''yt-dlp'' (ytdlp_args u path)) \<noteq> Close (Some 0))
       \<and> downloadMp3 spawn u path \<noteq> Fulfilled False"
  unfolding downloadMp3_def settle_finished [OF assms]
  by (auto split: list.splits)

theorem downloadMp3_settles_witness:
  "finished_run [StdoutData ''[download] 100%'', Close (Some 1)]
   \<and> downloadMp3 (\<lambda>cmd args. [StdoutData ''[download] 100%'', Close (Some 1)]) ''u'' ''d'' = Pending"
  using downloadMp3_settles [of "\<lambda>cmd args. [StdoutData ''[download] 100%'', Close (Some 1)]" "''u''" "''d''"]
  by simp













text \<open>
  C1, as the code has it. \<open>searchInYoutubeAndDownload\<close> never calls \<open>sortVideos\<close>: it
  takes \<open>result.videos[0]\<close>, the first element of the search result as returned, and
  passes the url of that one to \<open>downloadMp3\<close>.
\<close>

theorem searchInYoutubeAndDownload_first_result:
  assumes "artists trk = a # as"
    and "yt_search w (track_name trk @ '' - '' @ artist_name a @ '' lyric'') = Inr (v # vs)"
  shows "searches (searchInYoutubeAndDownload w trk dir) =
           [track_name trk @ '' - '' @ artist_name a @ '' lyric'']
       \<and> fetches (searchInYoutubeAndDownload w trk dir) = [(url v, dir)]"
  using assms by (simp add: searchInYoutubeAndDownload_def Let_def split: promise.splits)

theorem searchInYoutubeAndDownload_first_result_witness:
  "artists (ex_track ''One'') = [ex_artist]
   \<and> yt_search ex_world ''One - Ann lyric'' =
       Inr [ex_video ''https://youtu.be/One - Ann lyric'' 10, ex_video ''https://youtu.be/other'' 1000]
   \<and> fetches (searchInYoutubeAndDownload ex_world (ex_track ''One'') ''/music'') =
       [(''https://youtu.be/One - Ann lyric'', ''/music'')]"
proof -
  have a: "artists (ex_track ''One'') = [ex_artist]" by (simp add: ex_track_def)
  have s: "yt_search ex_world
      (track_name (ex_track ''One'') @ '' - '' @ artist_name ex_artist @ '' lyric'') =
       Inr [ex_video ''https://youtu.be/One - Ann lyric'' 10, ex_video ''https://youtu.be/other'' 1000]"
    by (simp add: ex_world_def ex_track_def ex_artist_def)
  from searchInYoutubeAndDownload_first_result [OF a s, of "''/music''"] a s show ?thesis
    by (simp add: ex_video_def ex_track_def ex_artist_def)
qed

lemma mset_pair:
  assumes "mset out = {#a, b#}"
  shows "out = [a, b] \<or> out = [b, a]"
proof -
  from assms have "size (mset out) = 2" by simp
  then have "length out = 2" by simp
  then obtain x y where out: "out = [x, y]"
    by (cases out; cases "tl out") auto
  with assms have "{#x, y#} = {#a, b#}" by simp
  then have "x = a \<and> y = b \<or> x = b \<and> y = a"
    by (auto simp: add_eq_conv_diff)
  with out show ?thesis by auto
qed

text \<open>
  The claim as stated fails when the ranking would reorder the search result: here the
  second result has a hundred times the views of the first and ranks first, and the url
  that is downloaded is that of the first.
\<close>

theorem searchInYoutubeAndDownload_first_result_counterexample:
  "yt_search ex_world ''One - Ann lyric'' =
       Inr [ex_video ''https://youtu.be/One - Ann lyric'' 10, ex_video ''https://youtu.be/other'' 1000]
   \<and> \<not> (\<exists>srt. engine_sort srt \<and>
          sortVideos srt [ex_video ''https://youtu.be/One - Ann lyric'' 10, ex_video ''https://youtu.be/other'' 1000]
            \<noteq> [ex_video ''https://youtu.be/other'' 1000, ex_video ''https://youtu.be/One - Ann lyric'' 10])
   \<and> sortVideos run_binary_sort
        [ex_video ''https://youtu.be/One - Ann lyric'' 10, ex_video ''https://youtu.be/other'' 1000]
       = [ex_video ''https://youtu.be/other'' 1000, ex_video ''https://youtu.be/One - Ann lyric'' 10]
   \<and> fetches (searchInYoutubeAndDownload ex_world (ex_track ''One'') ''/music'') =
       [(''https://youtu.be/One - Ann lyric'', ''/music'')]
   \<and> fetches (searchInYoutubeAndDownload ex_world (ex_track ''One'') ''/music'') \<noteq>
       [(''https://youtu.be/other'', ''/music'')]"
proof -
  let ?low = "ex_video ''https://youtu.be/One - Ann lyric'' 10"
  let ?high = "ex_video ''https://youtu.be/other'' 1000"
  have bad: "\<not> neighbours_agree (\<lambda>a b. snd (compareVideos a b)) [?low, ?high]"
    by code_simp
  have all: "sortVideos srt [?low, ?high] = [?high, ?low]" if "engine_sort srt" for srt
  proof -
    from that have "mset (sortVideos srt [?low, ?high]) = {#?low, ?high#}"
      and agree: "neighbours_agree (\<lambda>a b. snd (compareVideos a b)) (sortVideos srt [?low, ?high])"
      by (simp_all add: sortVideos_def engine_sort_def)
    from mset_pair [OF this(1)] agree bad show ?thesis by auto
  qed
  have 1: "yt_search ex_world ''One - Ann lyric'' = Inr [?low, ?high]" by code_simp
  have 2: "sortVideos run_binary_sort [?low, ?high] = [?high, ?low]" by code_simp
  have 3: "fetches (searchInYoutubeAndDownload ex_world (ex_track ''One'') ''/music'') =
       [(''https://youtu.be/One - Ann lyric'', ''/music'')]" by code_simp
  have 4: "fetches (searchInYoutubeAndDownload ex_world (ex_track ''One'') ''/music'') \<noteq>
       [(''https://youtu.be/other'', ''/music'')]" by code_simp
  from all have "\<not> (\<exists>srt. engine_sort srt \<and> sortVideos srt [?low, ?high] \<noteq> [?high, ?low])"
    by blast
  with 1 2 3 4 show ?thesis by (intro conjI)
qed

end
